theory Spec2Isabelle
  imports Complex_Main "HOL-Library.Char_ord" "HOL-Library.List_Lexorder"
    "HOL-Library.Code_Target_Nat"
begin

section \<open>Doubles\<close>

text \<open>
  A C++ \<^verbatim>\<open>double\<close> is modelled as a real number, one of the two infinities, or NaN.
  The operations follow IEEE 754 on the special values (an infinity minus itself, zero
  times an infinity and zero over zero are NaN; every comparison with NaN is false; a
  non-zero number over zero is an infinity). The finite results of the four arithmetic
  operations are exact: their rounding and overflow and the sign of zero are not
  modelled.
\<close>

datatype dbl = Fin real | PInf | NInf | NaN

fun dneg :: "dbl \<Rightarrow> dbl" where
  "dneg (Fin a) = Fin (- a)"
| "dneg PInf = NInf"
| "dneg NInf = PInf"
| "dneg NaN = NaN"

fun dadd :: "dbl \<Rightarrow> dbl \<Rightarrow> dbl" where
  "dadd (Fin a) (Fin b) = Fin (a + b)"
| "dadd (Fin a) PInf = PInf"
| "dadd (Fin a) NInf = NInf"
| "dadd PInf (Fin b) = PInf"
| "dadd PInf PInf = PInf"
| "dadd PInf NInf = NaN"
| "dadd NInf (Fin b) = NInf"
| "dadd NInf NInf = NInf"
| "dadd NInf PInf = NaN"
| "dadd NaN y = NaN"
| "dadd x NaN = NaN"

definition dsub :: "dbl \<Rightarrow> dbl \<Rightarrow> dbl" where
  "dsub x y = dadd x (dneg y)"

text \<open>An infinity of the sign of a non-zero real.\<close>

definition inf_of_sign :: "real \<Rightarrow> dbl" where
  "inf_of_sign a = (if 0 < a then PInf else NInf)"

fun dmul :: "dbl \<Rightarrow> dbl \<Rightarrow> dbl" where
  "dmul (Fin a) (Fin b) = Fin (a * b)"
| "dmul (Fin a) PInf = (if a = 0 then NaN else inf_of_sign a)"
| "dmul (Fin a) NInf = (if a = 0 then NaN else inf_of_sign (- a))"
| "dmul PInf (Fin b) = (if b = 0 then NaN else inf_of_sign b)"
| "dmul NInf (Fin b) = (if b = 0 then NaN else inf_of_sign (- b))"
| "dmul PInf PInf = PInf"
| "dmul PInf NInf = NInf"
| "dmul NInf PInf = NInf"
| "dmul NInf NInf = PInf"
| "dmul NaN y = NaN"
| "dmul x NaN = NaN"

fun ddiv :: "dbl \<Rightarrow> dbl \<Rightarrow> dbl" where
  "ddiv (Fin a) (Fin b) =
     (if b \<noteq> 0 then Fin (a / b) else if a = 0 then NaN else inf_of_sign a)"
| "ddiv (Fin a) PInf = Fin 0"
| "ddiv (Fin a) NInf = Fin 0"
| "ddiv PInf (Fin b) = (if 0 \<le> b then PInf else NInf)"
| "ddiv NInf (Fin b) = (if 0 \<le> b then NInf else PInf)"
| "ddiv PInf PInf = NaN"
| "ddiv PInf NInf = NaN"
| "ddiv NInf PInf = NaN"
| "ddiv NInf NInf = NaN"
| "ddiv NaN y = NaN"
| "ddiv x NaN = NaN"

fun dless :: "dbl \<Rightarrow> dbl \<Rightarrow> bool" where
  "dless (Fin a) (Fin b) = (a < b)"
| "dless (Fin a) PInf = True"
| "dless NInf (Fin b) = True"
| "dless NInf PInf = True"
| "dless x y = False"

fun dle :: "dbl \<Rightarrow> dbl \<Rightarrow> bool" where
  "dle (Fin a) (Fin b) = (a \<le> b)"
| "dle (Fin a) PInf = True"
| "dle NInf (Fin b) = True"
| "dle NInf PInf = True"
| "dle PInf PInf = True"
| "dle NInf NInf = True"
| "dle x y = False"

fun isinf :: "dbl \<Rightarrow> bool" where
  "isinf PInf = True"
| "isinf NInf = True"
| "isinf x = False"

fun isfinite :: "dbl \<Rightarrow> bool" where
  "isfinite (Fin a) = True"
| "isfinite x = False"

fun fabs :: "dbl \<Rightarrow> dbl" where
  "fabs (Fin a) = Fin \<bar>a\<bar>"
| "fabs PInf = PInf"
| "fabs NInf = PInf"
| "fabs NaN = NaN"

text \<open>
  The largest double, the smallest normal double and the smallest subnormal double.
\<close>

definition DBL_MAX :: real where
  "DBL_MAX = (2 ^ 53 - 1) * 2 ^ 971"

definition DBL_MIN :: real where
  "DBL_MIN = 1 / 2 ^ 1022"

definition DBL_TRUE_MIN :: real where
  "DBL_TRUE_MIN = 1 / 2 ^ 1074"

text \<open>
  The double delivered for a real result of a library function: a result beyond the
  largest double overflows to an infinity, a result below half the smallest subnormal
  double underflows to zero. In between the result is taken as it is.
\<close>

definition to_double :: "real \<Rightarrow> dbl" where
  "to_double v =
     (if DBL_MAX < v then PInf
      else if v < - DBL_MAX then NInf
      else if \<bar>v\<bar> < DBL_TRUE_MIN / 2 then Fin 0
      else Fin v)"

text \<open>
  \<^verbatim>\<open>std::pow\<close> with the special cases of C99 Annex F: any base to the power zero is 1, 1 to
  any power is 1, a zero base gives 0 for a positive and an infinity for a negative
  exponent, a negative finite base with a non-integer exponent gives NaN. A power of
  finite arguments can overflow to an infinity and underflow to zero.
\<close>

definition pow_fin :: "real \<Rightarrow> real \<Rightarrow> dbl" where
  "pow_fin a b =
     (if 0 < a then to_double (a powr b)
      else if a = 0 then (if 0 < b then Fin 0 else PInf)
      else if b \<in> \<int> then to_double ((if even \<lfloor>b\<rfloor> then 1 else - 1) * (\<bar>a\<bar> powr b))
      else NaN)"

fun pow_d :: "dbl \<Rightarrow> dbl \<Rightarrow> dbl" where
  "pow_d x (Fin b) =
     (if b = 0 then Fin 1
      else case x of
        Fin a \<Rightarrow> if a = 1 then Fin 1 else pow_fin a b
      | PInf \<Rightarrow> if 0 < b then PInf else Fin 0
      | NInf \<Rightarrow> if 0 < b then (if b \<in> \<int> \<and> odd \<lfloor>b\<rfloor> then NInf else PInf) else Fin 0
      | NaN \<Rightarrow> NaN)"
| "pow_d x PInf =
     (case x of
        Fin a \<Rightarrow> if \<bar>a\<bar> = 1 then Fin 1 else if \<bar>a\<bar> < 1 then Fin 0 else PInf
      | PInf \<Rightarrow> PInf
      | NInf \<Rightarrow> PInf
      | NaN \<Rightarrow> NaN)"
| "pow_d x NInf =
     (case x of
        Fin a \<Rightarrow> if \<bar>a\<bar> = 1 then Fin 1 else if \<bar>a\<bar> < 1 then PInf else Fin 0
      | PInf \<Rightarrow> Fin 0
      | NInf \<Rightarrow> Fin 0
      | NaN \<Rightarrow> NaN)"
| "pow_d x NaN = (if x = Fin 1 then Fin 1 else NaN)"

section \<open>Graph (graph.h, graph.cpp)\<close>

text \<open>
  \<^verbatim>\<open>label_to_index_\<close> is an \<^verbatim>\<open>unordered_map\<close> filled by \<^verbatim>\<open>emplace\<close>; it is kept as the
  association list of the insertions and read with \<^const>\<open>map_of\<close>, which like
  \<^verbatim>\<open>emplace\<close> lets the first insertion of a key win.
\<close>

record Graph =
  index_to_label :: "string list"
  label_to_index :: "(string \<times> nat) list"
  adjacency :: "dbl list list"

definition empty_Graph :: Graph where
  "empty_Graph = \<lparr>index_to_label = [], label_to_index = [], adjacency = []\<rparr>"

definition kInfinity :: dbl where
  "kInfinity = PInf"

definition VertexCount :: "Graph \<Rightarrow> nat" where
  "VertexCount g = length (index_to_label g)"

text \<open>
  \<^verbatim>\<open>Weight\<close> and \<^verbatim>\<open>Label\<close> index their vectors unchecked. The theorems below use them only
  at indices inside the vectors.
\<close>

definition Weight :: "Graph \<Rightarrow> nat \<Rightarrow> nat \<Rightarrow> dbl" where
  "Weight g i j = adjacency g ! i ! j"

definition Label :: "Graph \<Rightarrow> nat \<Rightarrow> string" where
  "Label g i = index_to_label g ! i"

subsection \<open>Reading the DOT subset\<close>

datatype error =
    RuntimeError     \<comment> \<open>\<^verbatim>\<open>std::runtime_error\<close>: the graph file cannot be opened\<close>
  | OutOfRange       \<comment> \<open>\<^verbatim>\<open>std::out_of_range\<close> thrown by \<^verbatim>\<open>std::stod\<close>\<close>
  | InvalidArgument  \<comment> \<open>\<^verbatim>\<open>std::invalid_argument\<close> thrown by \<^verbatim>\<open>std::stod\<close>\<close>

text \<open>\<^verbatim>\<open>std::isspace\<close> in the C locale: space, and the controls from tab to carriage return.\<close>

definition isspace :: "char \<Rightarrow> bool" where
  "isspace c = (c = CHR '' '' \<or> (9 :: nat) \<le> of_char c \<and> of_char c \<le> (13 :: nat))"

definition is_digit :: "char \<Rightarrow> bool" where
  "is_digit c = ((48 :: nat) \<le> of_char c \<and> of_char c \<le> (57 :: nat))"

definition Trim :: "string \<Rightarrow> string" where
  "Trim text = rev (dropWhile isspace (rev (dropWhile isspace text)))"

definition StripQuotes :: "string \<Rightarrow> string" where
  "StripQuotes text =
     (if 2 \<le> length text \<and>
         ((hd text = CHR 0x22 \<and> last text = CHR 0x22) \<or>
          (hd text = CHR 0x27 \<and> last text = CHR 0x27))
      then butlast (tl text) else text)"

record RawEdge =
  edge_from :: string
  edge_to :: string
  weight :: dbl
  bidirectional :: bool

text \<open>\<^verbatim>\<open>std::string::find\<close> for a string and for a character; \<open>None\<close> is \<^verbatim>\<open>npos\<close>.\<close>

fun find_str :: "string \<Rightarrow> string \<Rightarrow> nat option" where
  "find_str [] pat = (if pat = [] then Some 0 else None)"
| "find_str (c # cs) pat =
     (if take (length pat) (c # cs) = pat then Some 0
      else map_option Suc (find_str cs pat))"

definition find_chr :: "string \<Rightarrow> char \<Rightarrow> nat option" where
  "find_chr s c = (if c \<in> set s then Some (length (takeWhile (\<lambda>d. d \<noteq> c) s)) else None)"

text \<open>
  \<^verbatim>\<open>std::stod\<close> on a decimal literal: an optional sign, digits with an optional fraction,
  an optional exponent. The value is exact. A literal with no digit is
  \<^verbatim>\<open>invalid_argument\<close>; a value beyond the largest double, or non-zero and below the
  smallest normal double, makes \<^verbatim>\<open>strtod\<close> report a range error, which \<^verbatim>\<open>stod\<close> throws as
  \<^verbatim>\<open>out_of_range\<close>.
\<close>

definition digits_val :: "string \<Rightarrow> nat" where
  "digits_val ds = foldl (\<lambda>a c. 10 * a + (of_char c - 48)) 0 ds"

definition take_sign :: "string \<Rightarrow> string \<times> string" where
  "take_sign s =
     (case s of
        [] \<Rightarrow> ([], [])
      | c # r \<Rightarrow> if c = CHR ''-'' \<or> c = CHR ''+'' then ([c], r) else ([], s))"

definition stod :: "string \<Rightarrow> error + dbl" where
  "stod s =
     (let (sg, s1) = take_sign s;
          ip = takeWhile is_digit s1;
          r1 = dropWhile is_digit s1;
          (fp, r2) = (case r1 of
                        [] \<Rightarrow> ([], r1)
                      | c # r \<Rightarrow> if c = CHR ''.'' then (takeWhile is_digit r, dropWhile is_digit r)
                                 else ([], r1))
      in if ip = [] \<and> fp = [] then Inl InvalidArgument
         else
           let ex = (case r2 of
                       [] \<Rightarrow> 0
                     | c # r \<Rightarrow>
                         if c = CHR ''e'' \<or> c = CHR ''E''
                         then (let (esg, r3) = take_sign r; ed = takeWhile is_digit r3
                               in if ed = [] then 0
                                  else if esg = ''-'' then - int (digits_val ed)
                                  else int (digits_val ed))
                         else 0);
               mant = real (digits_val ip) + real (digits_val fp) / 10 ^ length fp;
               mag = (if 0 \<le> ex then mant * 10 ^ nat ex else mant / 10 ^ nat (- ex));
               v = (if sg = ''-'' then - mag else mag)
           in if DBL_MAX < \<bar>v\<bar> \<or> (v \<noteq> 0 \<and> \<bar>v\<bar> < DBL_MIN) then Inl OutOfRange
              else Inr (Fin v))"

text \<open>
  The number pattern \<^verbatim>\<open>[-+]?([0-9]*\.[0-9]+|[0-9]+)([eE][-+]?[0-9]+)?\<close> matched at the
  head of a string, with the greedy, first-alternative-first search of ECMAScript
  regular expressions: the result is the matched text and the rest. The first
  alternative needs a dot and a digit after the leading digits; the exponent group is
  taken only when complete.
\<close>

definition match_exponent :: "string \<Rightarrow> string \<times> string" where
  "match_exponent s =
     (case s of
        [] \<Rightarrow> ([], s)
      | c # r \<Rightarrow>
          if c = CHR ''e'' \<or> c = CHR ''E''
          then (let (esg, r1) = take_sign r; ed = takeWhile is_digit r1
                in if ed = [] then ([], s) else (c # esg @ ed, dropWhile is_digit r1))
          else ([], s))"

definition match_mantissa :: "string \<Rightarrow> (string \<times> string) option" where
  "match_mantissa s =
     (let ds = takeWhile is_digit s; r1 = dropWhile is_digit s
      in case r1 of
           [] \<Rightarrow> if ds = [] then None else Some (ds, r1)
         | c # r \<Rightarrow>
             if c = CHR ''.'' \<and> takeWhile is_digit r \<noteq> []
             then Some (ds @ c # takeWhile is_digit r, dropWhile is_digit r)
             else if ds = [] then None else Some (ds, r1))"

definition match_number :: "string \<Rightarrow> (string \<times> string) option" where
  "match_number s =
     (let (sg, s1) = take_sign s
      in case match_mantissa s1 of
           None \<Rightarrow> None
         | Some (m, r) \<Rightarrow> (let (ex, r') = match_exponent r in Some (sg @ m @ ex, r')))"

text \<open>
  \<^verbatim>\<open>kWeightRegex\<close>, \<^verbatim>\<open>(weight|label|w)\s*=\s*(number)\<close>, matched at the head of a string. The
  three names are tried in the order written. The result is the text of group 2.
\<close>

definition match_after_key :: "string \<Rightarrow> string option" where
  "match_after_key s =
     (case dropWhile isspace s of
        [] \<Rightarrow> None
      | c # r \<Rightarrow> if c = CHR ''='' then map_option fst (match_number (dropWhile isspace r))
                 else None)"

fun match_keys :: "string list \<Rightarrow> string \<Rightarrow> string option" where
  "match_keys [] s = None"
| "match_keys (k # ks) s =
     (case (if take (length k) s = k then match_after_key (drop (length k) s) else None) of
        Some m \<Rightarrow> Some m
      | None \<Rightarrow> match_keys ks s)"

definition match_weight :: "string \<Rightarrow> string option" where
  "match_weight s = match_keys [''weight'', ''label'', ''w''] s"

text \<open>\<^verbatim>\<open>std::regex_search\<close>: the match at the leftmost position that has one.\<close>

fun search_weight :: "string \<Rightarrow> string option" where
  "search_weight [] = match_weight []"
| "search_weight (c # cs) =
     (case match_weight (c # cs) of Some m \<Rightarrow> Some m | None \<Rightarrow> search_weight cs)"

fun search_number :: "string \<Rightarrow> string option" where
  "search_number [] = map_option fst (match_number [])"
| "search_number (c # cs) =
     (case match_number (c # cs) of Some (m, r) \<Rightarrow> Some m | None \<Rightarrow> search_number cs)"

text \<open>
  \<^verbatim>\<open>ParseWeight\<close> searches the C string of the attribute text, which ends at the first
  NUL character.
\<close>

definition c_str :: "string \<Rightarrow> string" where
  "c_str s = takeWhile (\<lambda>c. c \<noteq> CHR 0x00) s"

definition ParseWeight :: "string \<Rightarrow> error + dbl option" where
  "ParseWeight attributes =
     (let attr = c_str attributes
      in case search_weight attr of
           Some m \<Rightarrow> map_sum id Some (stod m)
         | None \<Rightarrow>
             (case search_number attr of
                Some m \<Rightarrow> map_sum id Some (stod m)
              | None \<Rightarrow> Inr None))"

definition no_edge :: RawEdge where
  "no_edge = \<lparr>edge_from = [], edge_to = [], weight = Fin 1, bidirectional = False\<rparr>"

definition ParseEdgeLine :: "string \<Rightarrow> error + RawEdge" where
  "ParseEdgeLine line =
     (let trimmed = Trim line
      in if trimmed = [] \<or> hd trimmed = CHR ''#'' then Inr no_edge
         else
           let arrow = (case find_str trimmed ''->'' of
                          Some p \<Rightarrow> Some (p, False)
                        | None \<Rightarrow> map_option (\<lambda>p. (p, True)) (find_str trimmed ''--''))
           in case arrow of
                None \<Rightarrow> Inr no_edge
              | Some (arrow_pos, bidir) \<Rightarrow>
                  let from_token = Trim (take arrow_pos trimmed);
                      rest = drop (arrow_pos + 2) trimmed;
                      (to_token0, attributes) =
                        (case find_chr rest CHR ''['' of
                           Some bracket_pos \<Rightarrow> (Trim (take bracket_pos rest), drop bracket_pos rest)
                         | None \<Rightarrow> (rest, []));
                      to_token1 = (case find_chr to_token0 CHR '';'' of
                                     Some semicolon_pos \<Rightarrow> take semicolon_pos to_token0
                                   | None \<Rightarrow> to_token0);
                      to_token = Trim to_token1
                  in if from_token = [] \<or> to_token = [] then Inr no_edge
                     else
                       let edge = \<lparr>edge_from = StripQuotes from_token,
                                   edge_to = StripQuotes to_token,
                                   weight = Fin 1, bidirectional = bidir\<rparr>
                       in if attributes \<noteq> []
                          then (case ParseWeight attributes of
                                  Inl e \<Rightarrow> Inl e
                                | Inr (Some w) \<Rightarrow> Inr (edge\<lparr>weight := w\<rparr>)
                                | Inr None \<Rightarrow> Inr edge)
                          else Inr edge)"

text \<open>
  \<^verbatim>\<open>std::getline\<close> until it fails: the text between newlines, and a last line without
  newline when it is not empty.
\<close>

fun getlines_from :: "string \<Rightarrow> string \<Rightarrow> string list" where
  "getlines_from cur [] = (if cur = [] then [] else [cur])"
| "getlines_from cur (c # cs) =
     (if c = CHR 0x0A then cur # getlines_from [] cs else getlines_from (cur @ [c]) cs)"

definition getlines :: "string \<Rightarrow> string list" where
  "getlines input = getlines_from [] input"

text \<open>
  The reading loop of \<^verbatim>\<open>FromGraphviz\<close>: the edges of the lines in order, without the lines
  that give an empty endpoint. An exception of \<^verbatim>\<open>ParseEdgeLine\<close> ends it.
\<close>

fun read_edges :: "string list \<Rightarrow> error + RawEdge list" where
  "read_edges [] = Inr []"
| "read_edges (line # lines) =
     (case ParseEdgeLine line of
        Inl e \<Rightarrow> Inl e
      | Inr edge \<Rightarrow>
          (case read_edges lines of
             Inl e \<Rightarrow> Inl e
           | Inr edges \<Rightarrow>
               if edge_from edge = [] \<or> edge_to edge = [] then Inr edges
               else Inr (edge # edges)))"

definition set_entry :: "dbl list list \<Rightarrow> nat \<Rightarrow> nat \<Rightarrow> dbl \<Rightarrow> dbl list list" where
  "set_entry a i j v = a[i := (a ! i)[j := v]]"

text \<open>The loop over the edges that fills the adjacency matrix.\<close>

definition store_edge :: "(string \<times> nat) list \<Rightarrow> dbl list list \<Rightarrow> RawEdge \<Rightarrow> dbl list list" where
  "store_edge l2i a edge =
     (case (map_of l2i (edge_from edge), map_of l2i (edge_to edge)) of
        (Some fi, Some ti) \<Rightarrow>
          (let a1 = set_entry a fi ti (weight edge)
           in if bidirectional edge then set_entry a1 ti fi (weight edge) else a1)
      | _ \<Rightarrow> a)"

text \<open>
  The rest of \<^verbatim>\<open>FromGraphviz\<close>. The labels are collected in an \<^verbatim>\<open>unordered_set\<close>, copied to
  a vector and sorted: the sorted list of the distinct labels.
\<close>

definition build_graph :: "RawEdge list \<Rightarrow> Graph" where
  "build_graph edges =
     (let labels = remdups (concat (map (\<lambda>e. [edge_from e, edge_to e]) edges))
      in if labels = [] then empty_Graph
         else
           let sorted_labels = sort labels;
               n = length sorted_labels;
               l2i = map (\<lambda>i. (sorted_labels ! i, i)) [0..<n];
               a0 = replicate n (replicate n kInfinity);
               a1 = foldl (\<lambda>a i. set_entry a i i (Fin 0)) a0 [0..<n]
           in \<lparr>index_to_label = sorted_labels, label_to_index = l2i,
               adjacency = foldl (store_edge l2i) a1 edges\<rparr>)"

definition FromGraphviz :: "string \<Rightarrow> error + Graph" where
  "FromGraphviz input = map_sum id build_graph (read_edges (getlines input))"

text \<open>
  \<^verbatim>\<open>FromGraphvizFile\<close>; the file system is a partial map from paths to contents, and a
  path outside it cannot be opened.
\<close>

definition FromGraphvizFile :: "(string \<rightharpoonup> string) \<Rightarrow> string \<Rightarrow> error + Graph" where
  "FromGraphvizFile fs path =
     (case fs path of None \<Rightarrow> Inl RuntimeError | Some input \<Rightarrow> FromGraphviz input)"

subsection \<open>CanonicalizeTour\<close>

text \<open>
  Tours are vectors of \<^verbatim>\<open>int\<close> in the source, filled only with vertex indices cast from
  \<^verbatim>\<open>size_t\<close>; they are lists of naturals here.

  The lambda \<^verbatim>\<open>append\<close> inside \<^verbatim>\<open>build_key\<close>: a separator is pushed only when the key
  built so far is not empty.
\<close>

definition key_append :: "Graph \<Rightarrow> string \<Rightarrow> nat \<Rightarrow> string" where
  "key_append g key index = (if key \<noteq> [] then key @ ''>'' else key) @ Label g index"

text \<open>The forward walk \<^verbatim>\<open>cycle[(start + i) % n]\<close> for \<^verbatim>\<open>i = 0 .. n-1\<close>.\<close>

definition walk_forward :: "nat list \<Rightarrow> nat \<Rightarrow> nat list" where
  "walk_forward cycle start =
     map (\<lambda>i. cycle ! ((start + i) mod length cycle)) [0..<length cycle]"

text \<open>
  The backward walk: \<^verbatim>\<open>k\<close> times, emit \<^verbatim>\<open>cycle[index]\<close> and step \<^verbatim>\<open>index\<close> down, wrapping
  from 0 to \<^verbatim>\<open>n - 1\<close>.
\<close>

fun walk_backward_from :: "nat list \<Rightarrow> nat \<Rightarrow> nat \<Rightarrow> nat list" where
  "walk_backward_from cycle index 0 = []"
| "walk_backward_from cycle index (Suc k) =
     cycle ! index #
     walk_backward_from cycle (if index = 0 then length cycle - 1 else index - 1) k"

definition walk_backward :: "nat list \<Rightarrow> nat \<Rightarrow> nat list" where
  "walk_backward cycle start =
     walk_backward_from cycle (start mod length cycle) (length cycle)"

definition walk :: "nat list \<Rightarrow> nat \<Rightarrow> bool \<Rightarrow> nat list" where
  "walk cycle start reverse =
     (if \<not> reverse then walk_forward cycle start else walk_backward cycle start)"

definition build_key :: "Graph \<Rightarrow> nat list \<Rightarrow> nat \<Rightarrow> bool \<Rightarrow> string" where
  "build_key g cycle start reverse = foldl (key_append g) [] (walk cycle start reverse)"

text \<open>
  One round of the scan over \<^verbatim>\<open>shift\<close>; the state is
  \<^verbatim>\<open>(best_key, best_shift, best_reverse)\<close>. Only a strictly smaller key replaces the
  best one.
\<close>

definition scan_step ::
  "Graph \<Rightarrow> nat list \<Rightarrow> string \<times> nat \<times> bool \<Rightarrow> nat \<Rightarrow> string \<times> nat \<times> bool" where
  "scan_step g cycle st shift =
     (let forward_key = build_key g cycle shift False;
          st1 = (if forward_key < fst st then (forward_key, shift, False) else st);
          reverse_key = build_key g cycle shift True
      in if reverse_key < fst st1 then (reverse_key, shift, True) else st1)"

definition scan_shifts :: "Graph \<Rightarrow> nat list \<Rightarrow> string \<times> nat \<times> bool" where
  "scan_shifts g cycle =
     foldl (scan_step g cycle) (build_key g cycle 0 False, 0, False) [0..<length cycle]"

definition CanonicalizeTour :: "Graph \<Rightarrow> nat list \<Rightarrow> nat list" where
  "CanonicalizeTour g tour =
     (if length tour \<le> 1 then tour
      else let cycle = (if hd tour = last tour then butlast tour else tour)
           in if cycle = [] then tour
              else let (best_key, best_shift, best_reverse) = scan_shifts g cycle;
                       result = walk cycle best_shift best_reverse
                   in result @ [hd result])"

section \<open>The solver (ant_colony_solver.h, ant_colony_solver.cpp)\<close>

record AntColonyParameters =
  ants :: nat
  iterations :: nat
  alpha :: dbl
  beta :: dbl
  evaporation :: dbl
  q :: dbl
  seed :: nat

text \<open>
  \<^verbatim>\<open>TourResult\<close> without \<^verbatim>\<open>elapsed_ms\<close>, which is read from the clock and is no function of
  the inputs.
\<close>

record TourResult =
  best_length :: dbl
  best_paths :: "nat list list"
  best_paths_labels :: "string list"

definition initial_TourResult :: TourResult where
  "initial_TourResult = \<lparr>best_length = kInfinity, best_paths = [], best_paths_labels = []\<rparr>"

record AntPath =
  path :: "nat list"
  length_ap :: dbl

definition initial_AntPath :: AntPath where
  "initial_AntPath = \<lparr>path = [], length_ap = kInfinity\<rparr>"

text \<open>
  The random engine and the two distributions come from the standard library. They are
  a parameter of the model: an engine state of any type, built from a seed, and the two
  draws, each returning the value and the next state. \<open>uniform_int hi\<close> stands for
  \<^verbatim>\<open>uniform_int_distribution<size_t>(0, hi)\<close>, whose values are at most \<open>hi\<close>, and
  \<open>uniform_real hi\<close> for \<^verbatim>\<open>uniform_real_distribution<double>(0.0, hi)\<close>.
\<close>

record 'r rng_ops =
  rng_seed :: "nat \<Rightarrow> 'r"
  uniform_int :: "nat \<Rightarrow> 'r \<Rightarrow> nat \<times> 'r"
  uniform_real :: "dbl \<Rightarrow> 'r \<Rightarrow> dbl \<times> 'r"

definition Heuristic :: "dbl \<Rightarrow> dbl" where
  "Heuristic w = (if dle w (Fin 0) \<or> isinf w then Fin 0 else ddiv (Fin 1) w)"

definition kEps :: dbl where
  "kEps = Fin (1 / 10 ^ 9)"

definition AreEqual :: "dbl \<Rightarrow> dbl \<Rightarrow> bool" where
  "AreEqual a b = dle (fabs (dsub a b)) kEps"

definition InitialPheromone :: "Graph \<Rightarrow> dbl list list" where
  "InitialPheromone g = replicate (VertexCount g) (replicate (VertexCount g) (Fin 1))"

definition zero_matrix :: "Graph \<Rightarrow> dbl list list" where
  "zero_matrix g = replicate (VertexCount g) (replicate (VertexCount g) (Fin 0))"

text \<open>
  \<^verbatim>\<open>ComputePathLength\<close>: the loop adds the weights of consecutive pairs and leaves with
  infinity at the first weight that is not finite.
\<close>

fun sum_weights :: "Graph \<Rightarrow> dbl \<Rightarrow> nat list \<Rightarrow> dbl" where
  "sum_weights g len (u # v # rest) =
     (let w = Weight g u v
      in if \<not> isfinite w then kInfinity else sum_weights g (dadd len w) (v # rest))"
| "sum_weights g len p = len"

definition ComputePathLength :: "Graph \<Rightarrow> nat list \<Rightarrow> dbl" where
  "ComputePathLength g p = (if length p < 2 then kInfinity else sum_weights g (Fin 0) p)"

text \<open>
  One round of the loop over \<^verbatim>\<open>next\<close> in \<^verbatim>\<open>ConstructSolution\<close>; the state is
  \<^verbatim>\<open>(candidates, probabilities, sum)\<close>.
\<close>

definition candidate_value ::
  "Graph \<Rightarrow> AntColonyParameters \<Rightarrow> dbl list list \<Rightarrow> nat \<Rightarrow> nat \<Rightarrow> dbl" where
  "candidate_value g params pheromone current next =
     (let w = Weight g current next;
          tau = pow_d (pheromone ! current ! next) (alpha params);
          eta = pow_d (Heuristic w) (beta params)
      in dmul tau eta)"

definition candidate_step ::
  "Graph \<Rightarrow> AntColonyParameters \<Rightarrow> dbl list list \<Rightarrow> bool list \<Rightarrow> nat \<Rightarrow>
   nat list \<times> dbl list \<times> dbl \<Rightarrow> nat \<Rightarrow> nat list \<times> dbl list \<times> dbl" where
  "candidate_step g params pheromone visited current st next =
     (if visited ! next then st
      else let v = candidate_value g params pheromone current next
           in if dle v (Fin 0) then st
              else (case st of (candidates, probabilities, tot) \<Rightarrow>
                      (candidates @ [next], probabilities @ [v], dadd tot v)))"

definition collect_candidates ::
  "Graph \<Rightarrow> AntColonyParameters \<Rightarrow> dbl list list \<Rightarrow> bool list \<Rightarrow> nat \<Rightarrow>
   nat list \<times> dbl list \<times> dbl" where
  "collect_candidates g params pheromone visited current =
     foldl (candidate_step g params pheromone visited current) ([], [], Fin 0)
       [0..<VertexCount g]"

text \<open>
  The selection loop
  \<^verbatim>\<open>while (choice > cumulative && index + 1 < probabilities.size())\<close>; the last argument
  is the part of \<^verbatim>\<open>probabilities\<close> after \<^verbatim>\<open>index\<close>.
\<close>

fun pick_index :: "dbl \<Rightarrow> dbl \<Rightarrow> nat \<Rightarrow> dbl list \<Rightarrow> nat" where
  "pick_index choice cumulative index [] = index"
| "pick_index choice cumulative index (p # ps) =
     (if dless cumulative choice then pick_index choice (dadd cumulative p) (Suc index) ps
      else index)"

text \<open>
  One step of the tour: \<open>None\<close> when there is no candidate, otherwise the vertex chosen
  and the next engine state.
\<close>

definition choose_next ::
  "'r rng_ops \<Rightarrow> Graph \<Rightarrow> AntColonyParameters \<Rightarrow> dbl list list \<Rightarrow> bool list \<Rightarrow> nat \<Rightarrow> 'r \<Rightarrow>
   (nat \<times> 'r) option" where
  "choose_next ops g params pheromone visited current r =
     (case collect_candidates g params pheromone visited current of
        (candidates, probabilities, tot) \<Rightarrow>
          if candidates = [] then None
          else (case uniform_real ops tot r of
                  (choice, r') \<Rightarrow>
                    Some (candidates ! pick_index choice (hd probabilities) 0 (tl probabilities),
                          r')))"

text \<open>The loop \<^verbatim>\<open>for (step = 1; step < n; ++step)\<close>, by the number of steps left.\<close>

fun construct_steps ::
  "'r rng_ops \<Rightarrow> Graph \<Rightarrow> AntColonyParameters \<Rightarrow> dbl list list \<Rightarrow> nat \<Rightarrow>
   bool list \<Rightarrow> nat \<Rightarrow> nat list \<Rightarrow> 'r \<Rightarrow> nat list option \<times> 'r" where
  "construct_steps ops g params pheromone 0 visited current p r = (Some p, r)"
| "construct_steps ops g params pheromone (Suc k) visited current p r =
     (case choose_next ops g params pheromone visited current r of
        None \<Rightarrow> (None, r)
      | Some (next, r') \<Rightarrow>
          construct_steps ops g params pheromone k (visited[next := True]) next (p @ [next]) r')"

definition ConstructSolution ::
  "'r rng_ops \<Rightarrow> Graph \<Rightarrow> AntColonyParameters \<Rightarrow> dbl list list \<Rightarrow> 'r \<Rightarrow> AntPath \<times> 'r" where
  "ConstructSolution ops g params pheromone r =
     (let n = VertexCount g
      in if n = 0 then (initial_AntPath, r)
         else (case uniform_int ops (n - 1) r of
                 (current, r1) \<Rightarrow>
                   (case construct_steps ops g params pheromone (n - 1)
                           ((replicate n False)[current := True]) current [current] r1 of
                      (None, r2) \<Rightarrow> (\<lparr>path = [], length_ap = kInfinity\<rparr>, r2)
                    | (Some p, r2) \<Rightarrow>
                        (let closed = p @ [hd p]; len = ComputePathLength g closed
                         in if \<not> isfinite len then (\<lparr>path = [], length_ap = kInfinity\<rparr>, r2)
                            else (\<lparr>path = closed, length_ap = len\<rparr>, r2)))))"

fun deposit_edges :: "dbl \<Rightarrow> dbl list list \<Rightarrow> nat list \<Rightarrow> dbl list list" where
  "deposit_edges deposit deltas (u # v # rest) =
     deposit_edges deposit (set_entry deltas u v (dadd (deltas ! u ! v) deposit)) (v # rest)"
| "deposit_edges deposit deltas p = deltas"

definition DepositPheromone :: "AntPath \<Rightarrow> dbl \<Rightarrow> dbl list list \<Rightarrow> dbl list list" where
  "DepositPheromone ap qv deltas =
     (if length (path ap) < 2 \<or> \<not> isfinite (length_ap ap) then deltas
      else deposit_edges (ddiv qv (length_ap ap)) deltas (path ap))"

text \<open>The string \<^verbatim>\<open>serialized\<close> of \<^verbatim>\<open>UpdateBest\<close>: the labels joined by an arrow.\<close>

definition serialize :: "Graph \<Rightarrow> nat list \<Rightarrow> string" where
  "serialize g canonical =
     foldl (\<lambda>s i. (if i \<noteq> 0 then s @ ''->'' else s) @ Label g (canonical ! i)) []
       [0..<length canonical]"

definition UpdateBest :: "Graph \<Rightarrow> AntPath \<Rightarrow> TourResult \<Rightarrow> TourResult" where
  "UpdateBest g candidate res =
     (if path candidate = [] \<or> \<not> isfinite (length_ap candidate) then res
      else
        let canonical = CanonicalizeTour g (path candidate);
            serialized = serialize g canonical
        in if best_paths res = [] \<or>
              dless (dadd (length_ap candidate) (Fin (1 / 10 ^ 9))) (best_length res)
           then \<lparr>best_length = length_ap candidate, best_paths = [canonical],
                 best_paths_labels = [serialized]\<rparr>
           else if AreEqual (length_ap candidate) (best_length res)
           then (if serialized \<notin> set (best_paths_labels res)
                 then res\<lparr>best_paths := best_paths res @ [canonical],
                          best_paths_labels := best_paths_labels res @ [serialized]\<rparr>
                 else res)
           else res)"

text \<open>
  The update of the pheromone at the end of an iteration, the same loop in both
  runners: every entry is replaced from its own old value and its delta, and raised to
  \<^verbatim>\<open>1e-12\<close> when below.
\<close>

definition evaporate_entry :: "dbl \<Rightarrow> dbl \<Rightarrow> dbl \<Rightarrow> dbl" where
  "evaporate_entry evap ph d =
     (let v = dadd (dmul (dsub (Fin 1) evap) ph) d
      in if dless v (Fin (1 / 10 ^ 12)) then Fin (1 / 10 ^ 12) else v)"

definition update_pheromone ::
  "Graph \<Rightarrow> AntColonyParameters \<Rightarrow> dbl list list \<Rightarrow> dbl list list \<Rightarrow> dbl list list" where
  "update_pheromone g params pheromone delta =
     map (\<lambda>i. map (\<lambda>j. evaporate_entry (evaporation params) (pheromone ! i ! j) (delta ! i ! j))
                 [0..<VertexCount g])
         [0..<VertexCount g]"

subsection \<open>RunSequential\<close>

text \<open>
  The loop over the ants of one iteration, by the number of ants left; the state is the
  delta matrix, the result and the engine.
\<close>

fun seq_ants ::
  "'r rng_ops \<Rightarrow> Graph \<Rightarrow> AntColonyParameters \<Rightarrow> dbl list list \<Rightarrow> nat \<Rightarrow>
   dbl list list \<times> TourResult \<times> 'r \<Rightarrow> dbl list list \<times> TourResult \<times> 'r" where
  "seq_ants ops g params pheromone 0 (delta, res, r) = (delta, res, r)"
| "seq_ants ops g params pheromone (Suc k) (delta, res, r) =
     (case ConstructSolution ops g params pheromone r of
        (ap, r') \<Rightarrow>
          if path ap = [] then seq_ants ops g params pheromone k (delta, res, r')
          else seq_ants ops g params pheromone k
                 (DepositPheromone ap (q params) delta, UpdateBest g ap res, r'))"

text \<open>One iteration; the state is the result, the pheromone and the engine.\<close>

definition seq_iteration ::
  "'r rng_ops \<Rightarrow> Graph \<Rightarrow> AntColonyParameters \<Rightarrow>
   TourResult \<times> dbl list list \<times> 'r \<Rightarrow> TourResult \<times> dbl list list \<times> 'r" where
  "seq_iteration ops g params st =
     (case st of (res, pheromone, r) \<Rightarrow>
        (case seq_ants ops g params pheromone (ants params) (zero_matrix g, res, r) of
           (delta, res', r') \<Rightarrow> (res', update_pheromone g params pheromone delta, r')))"

text \<open>The state after the first \<open>k\<close> iterations.\<close>

fun seq_state ::
  "'r rng_ops \<Rightarrow> Graph \<Rightarrow> AntColonyParameters \<Rightarrow> nat \<Rightarrow> TourResult \<times> dbl list list \<times> 'r" where
  "seq_state ops g params 0 =
     (initial_TourResult, InitialPheromone g, rng_seed ops (seed params))"
| "seq_state ops g params (Suc k) = seq_iteration ops g params (seq_state ops g params k)"

definition RunSequential :: "'r rng_ops \<Rightarrow> Graph \<Rightarrow> AntColonyParameters \<Rightarrow> TourResult" where
  "RunSequential ops g params = fst (seq_state ops g params (iterations params))"

subsection \<open>RunParallel\<close>

text \<open>
  The loop over the ants of one worker; the state is the worker's delta matrix, its
  best length, its best paths and its engine.
\<close>

fun worker_ants ::
  "'r rng_ops \<Rightarrow> Graph \<Rightarrow> AntColonyParameters \<Rightarrow> dbl list list \<Rightarrow> nat \<Rightarrow>
   dbl list list \<times> dbl \<times> AntPath list \<times> 'r \<Rightarrow> dbl list list \<times> dbl \<times> AntPath list \<times> 'r" where
  "worker_ants ops g params pheromone 0 (delta, tbl, tbp, r) = (delta, tbl, tbp, r)"
| "worker_ants ops g params pheromone (Suc k) (delta, tbl, tbp, r) =
     (case ConstructSolution ops g params pheromone r of
        (ap, r') \<Rightarrow>
          if path ap = [] then worker_ants ops g params pheromone k (delta, tbl, tbp, r')
          else
            let delta' = DepositPheromone ap (q params) delta
            in if dless (dadd (length_ap ap) (Fin (1 / 10 ^ 9))) tbl
               then worker_ants ops g params pheromone k (delta', length_ap ap, [ap], r')
               else if AreEqual (length_ap ap) tbl
               then worker_ants ops g params pheromone k (delta', tbl, tbp @ [ap], r')
               else worker_ants ops g params pheromone k (delta', tbl, tbp, r'))"

text \<open>
  The seed of worker \<open>t\<close> in an iteration,
  \<^verbatim>\<open>params.seed + static_cast<unsigned int>(t * 9973 + iteration * 7919)\<close>, in 32-bit
  unsigned arithmetic.
\<close>

definition worker_seed :: "AntColonyParameters \<Rightarrow> nat \<Rightarrow> nat \<Rightarrow> nat" where
  "worker_seed params t iteration =
     (seed params + (t * 9973 + iteration * 7919) mod 2 ^ 32) mod 2 ^ 32"

text \<open>
  What worker \<open>t\<close> computes before it takes the lock: its delta matrix and its best
  paths. A worker with no ant returns at once.
\<close>

definition worker ::
  "'r rng_ops \<Rightarrow> Graph \<Rightarrow> AntColonyParameters \<Rightarrow> nat \<Rightarrow> dbl list list \<Rightarrow> nat \<Rightarrow> nat \<Rightarrow>
   dbl list list \<times> AntPath list" where
  "worker ops g params thread_count pheromone iteration t =
     (let base = ants params div thread_count;
          remainder = ants params mod thread_count;
          assigned = base + (if t < remainder then 1 else 0)
      in if assigned = 0 then (zero_matrix g, [])
         else (case worker_ants ops g params pheromone assigned
                      (zero_matrix g, kInfinity, [], rng_seed ops (worker_seed params t iteration)) of
                 (delta, tbl, tbp, r) \<Rightarrow> (delta, tbp)))"

text \<open>
  The critical section of one worker: under \<^verbatim>\<open>best_mutex\<close> it passes each of its best
  paths to \<^verbatim>\<open>UpdateBest\<close>.
\<close>

definition merge_worker :: "Graph \<Rightarrow> TourResult \<Rightarrow> AntPath list \<Rightarrow> TourResult" where
  "merge_worker g res tbp = foldl (\<lambda>res' ap. UpdateBest g ap res') res tbp"

definition add_matrix :: "Graph \<Rightarrow> dbl list list \<Rightarrow> dbl list list \<Rightarrow> dbl list list" where
  "add_matrix g delta local =
     map (\<lambda>i. map (\<lambda>j. dadd (delta ! i ! j) (local ! i ! j)) [0..<VertexCount g])
         [0..<VertexCount g]"

text \<open>
  One iteration of \<^verbatim>\<open>RunParallel\<close>. The workers read the pheromone and write only their
  own delta matrix and best paths, so what each computes does not depend on the others.
  Each worker then updates the shared result inside its own thread, holding the mutex:
  the critical sections happen one after the other, in the order in which the threads
  get the lock. That order is not fixed by the program; it is the argument \<open>order\<close>, a
  list of the worker indices. After the join the main thread adds the delta matrices
  in index order and updates the pheromone.
\<close>

definition par_iteration ::
  "'r rng_ops \<Rightarrow> Graph \<Rightarrow> AntColonyParameters \<Rightarrow> nat \<Rightarrow> nat list \<Rightarrow> nat \<Rightarrow>
   TourResult \<times> dbl list list \<Rightarrow> TourResult \<times> dbl list list" where
  "par_iteration ops g params thread_count order iteration st =
     (case st of (res, pheromone) \<Rightarrow>
        (let locals = map (worker ops g params thread_count pheromone iteration) [0..<thread_count];
             res' = foldl (\<lambda>r t. merge_worker g r (snd (locals ! t))) res order;
             delta = foldl (\<lambda>d t. add_matrix g d (fst (locals ! t))) (zero_matrix g)
                       [0..<thread_count]
         in (res', update_pheromone g params pheromone delta)))"

text \<open>
  The state after the first \<open>k\<close> iterations; \<open>sched i\<close> is the order of the critical
  sections in iteration \<open>i\<close>.
\<close>

fun par_state ::
  "'r rng_ops \<Rightarrow> Graph \<Rightarrow> AntColonyParameters \<Rightarrow> nat \<Rightarrow> (nat \<Rightarrow> nat list) \<Rightarrow> nat \<Rightarrow>
   TourResult \<times> dbl list list" where
  "par_state ops g params thread_count sched 0 = (initial_TourResult, InitialPheromone g)"
| "par_state ops g params thread_count sched (Suc k) =
     par_iteration ops g params thread_count (sched k) k
       (par_state ops g params thread_count sched k)"

definition RunParallel ::
  "'r rng_ops \<Rightarrow> Graph \<Rightarrow> AntColonyParameters \<Rightarrow> (nat \<Rightarrow> nat list) \<Rightarrow> nat \<Rightarrow> TourResult" where
  "RunParallel ops g params sched thread_count =
     (if thread_count = 0 then initial_TourResult
      else fst (par_state ops g params thread_count sched (iterations params)))"

text \<open>A schedule is admissible when every order is a permutation of the worker indices.\<close>

definition schedule_ok :: "nat \<Rightarrow> (nat \<Rightarrow> nat list) \<Rightarrow> nat \<Rightarrow> bool" where
  "schedule_ok thread_count sched k =
     (\<forall>i < k. distinct (sched i) \<and> set (sched i) = {0..<thread_count})"

section \<open>Auxiliary definitions for the statements\<close>

text \<open>
  What the standard library promises of \<^verbatim>\<open>uniform_int_distribution\<close>: a draw is never above
  the upper bound.
\<close>

definition rng_in_range :: "'r rng_ops \<Rightarrow> bool" where
  "rng_in_range ops = (\<forall>hi r. fst (uniform_int ops hi r) \<le> hi)"

text \<open>
  A stand-in engine for the concrete instances below: the state is a counter, an integer
  draw is the counter reduced into the range, a real draw is always 0.
\<close>

definition counter_rng :: "nat rng_ops" where
  "counter_rng = \<lparr>rng_seed = (\<lambda>s. s), uniform_int = (\<lambda>hi r. (r mod (hi + 1), r + 1)),
     uniform_real = (\<lambda>hi r. (Fin 0, r + 1))\<rparr>"

text \<open>The default member initialisers of \<^verbatim>\<open>AntColonyParameters\<close>.\<close>

definition default_params :: AntColonyParameters where
  "default_params = \<lparr>ants = 64, iterations = 100, alpha = Fin 1, beta = Fin 3,
     evaporation = Fin (1 / 2), q = Fin 100, seed = 42\<rparr>"

text \<open>The result that holds the tour from vertex 0 to itself, of length \<open>w\<close>.\<close>

definition self_loop_result :: "Graph \<Rightarrow> dbl \<Rightarrow> TourResult" where
  "self_loop_result g w = \<lparr>best_length = w, best_paths = [[0, 0]],
      best_paths_labels = [Label g 0 @ ''->'' @ Label g 0]\<rparr>"

text \<open>The graph read from the single line \<^verbatim>\<open>A -> A\<close>.\<close>

definition loop_graph :: Graph where
  "loop_graph = \<lparr>index_to_label = [''A''], label_to_index = [(''A'', 0)], adjacency = [[Fin 1]]\<rparr>"

text \<open>
  A line that the reading loop of \<^verbatim>\<open>FromGraphviz\<close> passes over: it parses without exception
  to an edge with an empty endpoint.
\<close>

definition skipped_line :: "string \<Rightarrow> bool" where
  "skipped_line line =
     (case ParseEdgeLine line of Inl e \<Rightarrow> False | Inr e \<Rightarrow> edge_from e = [] \<or> edge_to e = [])"

text \<open>A line that \<^const>\<open>ParseEdgeLine\<close> reads without an exception.\<close>

definition parses :: "string \<Rightarrow> bool" where
  "parses line = (case ParseEdgeLine line of Inl e \<Rightarrow> False | Inr e \<Rightarrow> True)"

text \<open>The graph read from the two lines \<^verbatim>\<open>A -> B [w=1]\<close> and \<^verbatim>\<open>B -> A [w=-1]\<close>.\<close>

definition neg_graph :: Graph where
  "neg_graph = \<lparr>index_to_label = [''A'', ''B''], label_to_index = [(''A'', 0), (''B'', 1)],
     adjacency = [[Fin 0, Fin 1], [Fin (- 1), Fin 0]]\<rparr>"

text \<open>The graph read from the line \<^verbatim>\<open>A -> B [w=2]\<close>, with no edge back.\<close>

definition one_way_graph :: Graph where
  "one_way_graph = \<lparr>index_to_label = [''A'', ''B''], label_to_index = [(''A'', 0), (''B'', 1)],
     adjacency = [[Fin 0, Fin 2], [PInf, Fin 0]]\<rparr>"

text \<open>The graph read from the line \<^verbatim>\<open>A -- B [w=0]\<close>.\<close>

definition zero_graph :: Graph where
  "zero_graph = \<lparr>index_to_label = [''A'', ''B''], label_to_index = [(''A'', 0), (''B'', 1)],
     adjacency = [[Fin 0, Fin 0], [Fin 0, Fin 0]]\<rparr>"

text \<open>The complete graph on four vertices with all weights 1, read from six \<^verbatim>\<open>--\<close> lines.\<close>

definition k4_graph :: Graph where
  "k4_graph = \<lparr>index_to_label = [''A'', ''B'', ''C'', ''D''],
     label_to_index = [(''A'', 0), (''B'', 1), (''C'', 2), (''D'', 3)],
     adjacency = [[Fin 0, Fin 1, Fin 1, Fin 1], [Fin 1, Fin 0, Fin 1, Fin 1],
                  [Fin 1, Fin 1, Fin 0, Fin 1], [Fin 1, Fin 1, Fin 1, Fin 0]]\<rparr>"

definition two_ants :: AntColonyParameters where
  "two_ants = default_params\<lparr>ants := 2, iterations := 1, seed := 0\<rparr>"

definition one_ant :: AntColonyParameters where
  "one_ant = default_params\<lparr>ants := 1\<rparr>"

definition tour_abcd :: AntPath where
  "tour_abcd = \<lparr>path = [0, 1, 2, 3, 0], length_ap = Fin 4\<rparr>"

definition tour_bacd :: AntPath where
  "tour_bacd = \<lparr>path = [1, 0, 2, 3, 1], length_ap = Fin 4\<rparr>"

text \<open>The key of a walk, as \<^verbatim>\<open>build_key\<close> builds it.\<close>

definition tour_key :: "Graph \<Rightarrow> nat list \<Rightarrow> string" where
  "tour_key g w = foldl (key_append g) [] w"

text \<open>The rotations of a cycle and their reversals.\<close>

definition walks :: "nat list \<Rightarrow> nat list set" where
  "walks c = {w. \<exists>s. w = rotate s c \<or> w = rev (rotate s c)}"

text \<open>A list of labels joined by the separator of the keys.\<close>

fun join_labels :: "string list \<Rightarrow> string" where
  "join_labels [] = []"
| "join_labels (l # ls) = l @ concat (map ((#) CHR ''>'') ls)"

text \<open>
  The labels of a set of vertices are plain when they are pairwise different, not empty and
  free of the separator \<^verbatim>\<open>>\<close>.
\<close>

definition plain_labels :: "Graph \<Rightarrow> nat set \<Rightarrow> bool" where
  "plain_labels g V =
     (inj_on (Label g) V \<and> (\<forall>v \<in> V. Label g v \<noteq> [] \<and> CHR ''>'' \<notin> set (Label g v)))"

text \<open>A cycle closed by its first vertex.\<close>

definition closed_tour :: "nat list \<Rightarrow> nat list" where
  "closed_tour c = c @ [hd c]"

text \<open>
  The graph read from the lines \<^verbatim>\<open>A -> A>A\<close>, \<^verbatim>\<open>A>A -> B\<close> and \<^verbatim>\<open>B -> A\<close>: the label of the
  second vertex holds the separator.
\<close>

definition gt_graph :: Graph where
  "gt_graph = \<lparr>index_to_label = [''A'', ''A>A'', ''B''],
     label_to_index = [(''A'', 0), (''A>A'', 1), (''B'', 2)],
     adjacency = [[Fin 0, Fin 1, PInf], [PInf, Fin 0, Fin 1], [Fin 1, PInf, Fin 0]]\<rparr>"

text \<open>The cycle that \<^verbatim>\<open>CanonicalizeTour\<close> works on, and the walk that its scan selects.\<close>

definition cycle_of :: "nat list \<Rightarrow> nat list" where
  "cycle_of t = (if hd t = last t then butlast t else t)"

definition canon_walk :: "Graph \<Rightarrow> nat list \<Rightarrow> nat list" where
  "canon_walk g c = (case scan_shifts g c of (best_key, best_shift, best_reverse) \<Rightarrow>
     walk c best_shift best_reverse)"


text \<open>
  A closed tour over all vertices: one element more than there are vertices, the first
  equal to the last, and before the last every vertex exactly once.
\<close>

definition hamiltonian_tour :: "Graph \<Rightarrow> nat list \<Rightarrow> bool" where
  "hamiltonian_tour g p =
     (length p = VertexCount g + 1 \<and> hd p = last p \<and> distinct (butlast p) \<and>
      set (butlast p) = {..<VertexCount g})"

text \<open>An ant path that holds such a tour together with its finite length.\<close>

definition valid_ant_path :: "Graph \<Rightarrow> AntPath \<Rightarrow> bool" where
  "valid_ant_path g ap =
     (hamiltonian_tour g (path ap) \<and> length_ap ap = ComputePathLength g (path ap) \<and>
      isfinite (length_ap ap))"

text \<open>
  What holds of a stored best path: it is a fixed point of \<^const>\<open>CanonicalizeTour\<close>, a closed
  tour over all vertices, and the canonical form of a tour whose length is within
  \<^verbatim>\<open>1e-9\<close> of the best length.
\<close>

definition stored_tour_ok :: "Graph \<Rightarrow> dbl \<Rightarrow> nat list \<Rightarrow> bool" where
  "stored_tour_ok g best p =
     (CanonicalizeTour g p = p \<and> hamiltonian_tour g p \<and>
      (\<exists>c. hamiltonian_tour g c \<and> CanonicalizeTour g c = p \<and>
           AreEqual (ComputePathLength g c) best))"

text \<open>The invariant of a result.\<close>

definition result_inv :: "Graph \<Rightarrow> TourResult \<Rightarrow> bool" where
  "result_inv g res =
     (length (best_paths res) = length (best_paths_labels res) \<and>
      best_paths_labels res = map (serialize g) (best_paths res) \<and>
      distinct (best_paths_labels res) \<and>
      list_all (stored_tour_ok g (best_length res)) (best_paths res))"

text \<open>The graph read from the lines \<^verbatim>\<open>A -> D\<close>, \<^verbatim>\<open>D -> C\<close>, \<^verbatim>\<open>C -> B\<close> and \<^verbatim>\<open>B -> A\<close>.\<close>

definition rcycle_graph :: Graph where
  "rcycle_graph = \<lparr>index_to_label = [''A'', ''B'', ''C'', ''D''],
     label_to_index = [(''A'', 0), (''B'', 1), (''C'', 2), (''D'', 3)],
     adjacency = [[Fin 0, PInf, PInf, Fin 1], [Fin 1, Fin 0, PInf, PInf],
                  [PInf, Fin 1, Fin 0, PInf], [PInf, PInf, Fin 1, Fin 0]]\<rparr>"

definition single_ant :: AntColonyParameters where
  "single_ant = default_params\<lparr>ants := 1, iterations := 1\<rparr>"

text \<open>A matrix with \<open>n\<close> rows of length \<open>n\<close>.\<close>

definition square_matrix :: "nat \<Rightarrow> dbl list list \<Rightarrow> bool" where
  "square_matrix n a = (length a = n \<and> list_all (\<lambda>row. length row = n) a)"

text \<open>
  \<^verbatim>\<open>label_to_index_\<close> is the inverse of \<^verbatim>\<open>index_to_label_\<close>: the label at an index is mapped to
  that index, and a key that is mapped to an index is the label there.
\<close>

definition label_index_inverse :: "Graph \<Rightarrow> bool" where
  "label_index_inverse g =
     ((\<forall>i < VertexCount g. map_of (label_to_index g) (Label g i) = Some i) \<and>
      (\<forall>l i. map_of (label_to_index g) l = Some i \<longrightarrow> i < VertexCount g \<and> Label g i = l))"

text \<open>Some edge joins the two labels, in one direction or the other.\<close>

definition edge_line_between :: "RawEdge list \<Rightarrow> string \<Rightarrow> string \<Rightarrow> bool" where
  "edge_line_between edges l l' =
     list_ex (\<lambda>e. (edge_from e = l \<and> edge_to e = l') \<or> (edge_from e = l' \<and> edge_to e = l)) edges"

text \<open>The sorted labels of a list of edges, and their pairing with the indices.\<close>

definition edge_labels :: "RawEdge list \<Rightarrow> string list" where
  "edge_labels edges = sort (remdups (concat (map (\<lambda>e. [edge_from e, edge_to e]) edges)))"

definition index_pairs :: "string list \<Rightarrow> (string \<times> nat) list" where
  "index_pairs L = map (\<lambda>i. (L ! i, i)) [0..<length L]"

text \<open>The graph read from the lines \<^verbatim>\<open>A -> A [w=5]\<close> and \<^verbatim>\<open>A -> B [w=-2]\<close>.\<close>

definition self_neg_graph :: Graph where
  "self_neg_graph = \<lparr>index_to_label = [''A'', ''B''], label_to_index = [(''A'', 0), (''B'', 1)],
     adjacency = [[Fin 5, Fin (- 2)], [PInf, Fin 0]]\<rparr>"

text \<open>
  A pheromone matrix with every entry 2, and the default parameters with \<open>alpha = 2000\<close>:
  \<^verbatim>\<open>pow(2, 2000)\<close> is beyond the largest double.
\<close>

definition two_matrix :: "dbl list list" where
  "two_matrix = [[Fin 2, Fin 2], [Fin 2, Fin 2]]"

definition steep_params :: AntColonyParameters where
  "steep_params = default_params\<lparr>alpha := Fin 2000\<rparr>"

text \<open>
  An edge writes the entry from \<open>l\<close> to \<open>l'\<close> when it goes from \<open>l\<close> to \<open>l'\<close>, or is
  bidirectional and goes from \<open>l'\<close> to \<open>l\<close>.
\<close>

definition edge_covers :: "string \<Rightarrow> string \<Rightarrow> RawEdge \<Rightarrow> bool" where
  "edge_covers l l' e =
     ((edge_from e = l \<and> edge_to e = l') \<or>
      (bidirectional e \<and> edge_from e = l' \<and> edge_to e = l))"

text \<open>The weight of the last edge of a list that writes the entry from \<open>l\<close> to \<open>l'\<close>.\<close>

definition last_weight :: "RawEdge list \<Rightarrow> string \<Rightarrow> string \<Rightarrow> dbl option" where
  "last_weight edges l l' =
     (case rev (filter (edge_covers l l') edges) of [] \<Rightarrow> None | e # es \<Rightarrow> Some (weight e))"

text \<open>
  The edges of the lines of a stream, in the order of the lines: what \<^const>\<open>ParseEdgeLine\<close>
  returns for each line, without the edges that have an empty endpoint.
\<close>

definition line_edges :: "string list \<Rightarrow> RawEdge list" where
  "line_edges lines =
     concat (map (\<lambda>line. case ParseEdgeLine line of
                            Inl err \<Rightarrow> []
                          | Inr e \<Rightarrow> if edge_from e = [] \<or> edge_to e = [] then [] else [e])
                 lines)"

text \<open>
  The lengths of the candidates that \<^const>\<open>UpdateBest\<close> does not pass over: those with a path
  and a finite length.
\<close>

definition lens :: "AntPath list \<Rightarrow> real set" where
  "lens cs = {a. \<exists>c \<in> set cs. path c \<noteq> [] \<and> length_ap c = Fin a}"

text \<open>
  What holds of a result after \<^const>\<open>UpdateBest\<close> has seen candidates with the lengths \<open>S\<close>, in
  whatever order: with no length seen it is the initial result; otherwise it holds a path,
  and its best length is one of the lengths seen and exceeds none of them by more than
  \<^verbatim>\<open>1e-9\<close>.
\<close>

definition best_ok :: "real set \<Rightarrow> TourResult \<Rightarrow> bool" where
  "best_ok S res =
     (if S = {} then res = initial_TourResult
      else best_paths res \<noteq> [] \<and>
           (\<exists>a \<in> S. best_length res = Fin a \<and> (\<forall>c \<in> S. a \<le> c + 1 / 10 ^ 9)))"

text \<open>The lengths of the best paths of all workers in one iteration.\<close>

definition worker_lens ::
  "'r rng_ops \<Rightarrow> Graph \<Rightarrow> AntColonyParameters \<Rightarrow> nat \<Rightarrow> dbl list list \<Rightarrow> nat \<Rightarrow> real set" where
  "worker_lens ops g params tc ph it =
     (\<Union>t \<in> {0..<tc}. lens (snd (worker ops g params tc ph it t)))"

text \<open>
  The lengths of the best paths of all workers in the first \<open>k\<close> iterations. The pheromone
  that the workers read does not depend on the order of the critical sections; it is taken
  from the run in which they happen in index order.
\<close>

fun seen_lens ::
  "'r rng_ops \<Rightarrow> Graph \<Rightarrow> AntColonyParameters \<Rightarrow> nat \<Rightarrow> nat \<Rightarrow> real set" where
  "seen_lens ops g params tc 0 = {}"
| "seen_lens ops g params tc (Suc k) =
     seen_lens ops g params tc k \<union>
     worker_lens ops g params tc
       (snd (par_state ops g params tc (\<lambda>i. [0..<tc]) k)) k"

text \<open>The graph read from the line \<^verbatim>\<open>A -> B [x=1, flow=3]\<close>.\<close>

definition flow_graph :: Graph where
  "flow_graph = \<lparr>index_to_label = [''A'', ''B''], label_to_index = [(''A'', 0), (''B'', 1)],
     adjacency = [[Fin 0, Fin 3], [PInf, Fin 0]]\<rparr>"

text \<open>
  The complete graph on four vertices read from six \<^verbatim>\<open>--\<close> lines, of which the line
  \<^verbatim>\<open>B -- C [w=1.0000000005]\<close> has a weight; parameters with two ants, one iteration and
  \<open>beta = 0\<close>; and the tour from \<open>A\<close> through \<open>B\<close>, \<open>C\<close> and \<open>D\<close> with its length in that graph.
\<close>

definition near_graph :: Graph where
  "near_graph = \<lparr>index_to_label = [''A'', ''B'', ''C'', ''D''],
     label_to_index = [(''A'', 0), (''B'', 1), (''C'', 2), (''D'', 3)],
     adjacency = [[Fin 0, Fin 1, Fin 1, Fin 1],
                  [Fin 1, Fin 0, Fin (2000000001 / 2000000000), Fin 1],
                  [Fin 1, Fin (2000000001 / 2000000000), Fin 0, Fin 1],
                  [Fin 1, Fin 1, Fin 1, Fin 0]]\<rparr>"

definition flat_ants :: AntColonyParameters where
  "flat_ants = default_params\<lparr>ants := 2, iterations := 1, beta := Fin 0, seed := 0\<rparr>"

definition near_abcd :: AntPath where
  "near_abcd = \<lparr>path = [0, 1, 2, 3, 0], length_ap = Fin (8000000001 / 2000000000)\<rparr>"

section \<open>The graphs and the engine of the concrete instances\<close>

lemmas parse_defs = ParseEdgeLine_def Trim_def isspace_def find_chr_def StripQuotes_def
  ParseWeight_def c_str_def match_weight_def match_after_key_def match_number_def
  match_mantissa_def match_exponent_def take_sign_def is_digit_def stod_def digits_val_def
  DBL_MAX_def DBL_MIN_def no_edge_def Let_def

lemmas graph_defs = FromGraphviz_def getlines_def build_graph_def store_edge_def set_entry_def
  kInfinity_def empty_Graph_def

lemma FromGraphviz_loop: "FromGraphviz ''A -> A'' = Inr loop_graph"
  by (simp add: parse_defs graph_defs loop_graph_def)

lemma rng_in_range_counter: "rng_in_range counter_rng"
  by (simp add: rng_in_range_def counter_rng_def)

lemma FromGraphviz_neg: "FromGraphviz ''A -> B [w=1]\<newline>B -> A [w=-1]'' = Inr neg_graph"
  by (simp add: parse_defs graph_defs neg_graph_def)

lemma FromGraphviz_one_way: "FromGraphviz ''A -> B [w=2]'' = Inr one_way_graph"
  by (simp add: parse_defs graph_defs one_way_graph_def)

lemma FromGraphviz_zero: "FromGraphviz ''A -- B [w=0]'' = Inr zero_graph"
  by (simp add: parse_defs graph_defs zero_graph_def)

lemma k4_parse: "FromGraphviz ''A -- B\<newline>A -- C\<newline>A -- D\<newline>B -- C\<newline>B -- D\<newline>C -- D'' = Inr k4_graph"
  by code_simp


section \<open>Graphs with one vertex\<close>

lemma ConstructSolution_one_vertex:
  assumes "VertexCount g = 1" "Weight g 0 0 = Fin w" "rng_in_range ops"
  shows "fst (ConstructSolution ops g params ph r) = \<lparr>path = [0, 0], length_ap = Fin w\<rparr>"
proof -
  obtain c r1 where u: "uniform_int ops 0 r = (c, r1)" by (cases "uniform_int ops 0 r")
  with assms(3) have "c = 0" unfolding rng_in_range_def by (metis fst_conv le_zero_eq)
  with u assms(1,2) show ?thesis
    by (simp add: ConstructSolution_def ComputePathLength_def Let_def)
qed

lemma CanonicalizeTour_self_loop: "CanonicalizeTour g [0, 0] = [0, 0]"
  by (simp add: CanonicalizeTour_def scan_shifts_def scan_step_def build_key_def walk_def
      walk_forward_def walk_backward_def Let_def)

lemma serialize_pair: "serialize g [u, v] = Label g u @ ''->'' @ Label g v"
proof -
  have "[0..<length [u, v]] = [0, Suc 0]" by (simp add: upt_rec)
  then show ?thesis by (simp add: serialize_def)
qed

lemma UpdateBest_self_loop_first:
  "best_paths res = [] \<Longrightarrow>
   UpdateBest g \<lparr>path = [0, 0], length_ap = Fin w\<rparr> res = self_loop_result g (Fin w)"
  by (simp add: UpdateBest_def CanonicalizeTour_self_loop serialize_pair self_loop_result_def Let_def)

lemma UpdateBest_self_loop_again:
  "UpdateBest g \<lparr>path = [0, 0], length_ap = Fin w\<rparr> (self_loop_result g (Fin w)) =
   self_loop_result g (Fin w)"
  by (simp add: UpdateBest_def CanonicalizeTour_self_loop serialize_pair self_loop_result_def
      Let_def AreEqual_def dsub_def kEps_def)

lemma seq_ants_one_vertex:
  assumes "VertexCount g = 1" "Weight g 0 0 = Fin w" "rng_in_range ops"
  shows "res = initial_TourResult \<or> res = self_loop_result g (Fin w) \<Longrightarrow>
         fst (snd (seq_ants ops g params ph k (delta, res, r))) =
           (if k = 0 then res else self_loop_result g (Fin w))"
proof (induction k arbitrary: delta res r)
  case 0
  then show ?case by simp
next
  case (Suc k)
  obtain ap r' where c: "ConstructSolution ops g params ph r = (ap, r')"
    by (cases "ConstructSolution ops g params ph r")
  with ConstructSolution_one_vertex [OF assms, of params ph r]
  have ap: "ap = \<lparr>path = [0, 0], length_ap = Fin w\<rparr>" by simp
  have u: "UpdateBest g ap res = self_loop_result g (Fin w)"
    using Suc.prems ap
    by (auto simp: UpdateBest_self_loop_first UpdateBest_self_loop_again initial_TourResult_def)
  show ?case
    using Suc.IH [of "self_loop_result g (Fin w)" "DepositPheromone ap (q params) delta" r']
    by (simp add: c u [unfolded ap] ap)
qed

lemma seq_state_one_vertex:
  assumes "VertexCount g = 1" "Weight g 0 0 = Fin w" "rng_in_range ops" "0 < ants params"
  shows "fst (seq_state ops g params k) =
           (if k = 0 then initial_TourResult else self_loop_result g (Fin w))"
proof (induction k)
  case 0
  then show ?case by simp
next
  case (Suc k)
  obtain res ph r where s: "seq_state ops g params k = (res, ph, r)"
    by (cases "seq_state ops g params k")
  with Suc have res: "res = initial_TourResult \<or> res = self_loop_result g (Fin w)"
    by (auto split: if_splits)
  have step: "seq_state ops g params (Suc k) = seq_iteration ops g params (res, ph, r)"
    using s by simp
  obtain d res' r' where a: "seq_ants ops g params ph (ants params) (zero_matrix g, res, r) = (d, res', r')"
    by (cases "seq_ants ops g params ph (ants params) (zero_matrix g, res, r)")
  from seq_ants_one_vertex [OF assms(1-3) res, of params ph "ants params" "zero_matrix g" r] a assms(4)
  have "res' = self_loop_result g (Fin w)" by simp
  then show ?case unfolding step by (simp add: seq_iteration_def a)
qed


lemma worker_ants_one_vertex_more:
  assumes "VertexCount g = 1" "Weight g 0 0 = Fin w" "rng_in_range ops"
  shows "fst (snd (snd (worker_ants ops g params ph k (delta, Fin w, tbp, r)))) =
           tbp @ replicate k \<lparr>path = [0, 0], length_ap = Fin w\<rparr>"
proof (induction k arbitrary: delta tbp r)
  case 0
  then show ?case by simp
next
  case (Suc k)
  obtain ap r' where c: "ConstructSolution ops g params ph r = (ap, r')"
    by (cases "ConstructSolution ops g params ph r")
  with ConstructSolution_one_vertex [OF assms, of params ph r]
  have ap: "ap = \<lparr>path = [0, 0], length_ap = Fin w\<rparr>" by simp
  show ?case
    using Suc.IH [of "DepositPheromone ap (q params) delta" "tbp @ [ap]" r']
    by (simp add: c ap AreEqual_def dsub_def kEps_def Let_def replicate_app_Cons_same)
qed

lemma worker_ants_one_vertex:
  assumes "VertexCount g = 1" "Weight g 0 0 = Fin w" "rng_in_range ops"
  shows "fst (snd (snd (worker_ants ops g params ph k (delta, kInfinity, [], r)))) =
           replicate k \<lparr>path = [0, 0], length_ap = Fin w\<rparr>"
proof (cases k)
  case 0
  then show ?thesis by simp
next
  case (Suc j)
  obtain ap r' where c: "ConstructSolution ops g params ph r = (ap, r')"
    by (cases "ConstructSolution ops g params ph r")
  with ConstructSolution_one_vertex [OF assms, of params ph r]
  have ap: "ap = \<lparr>path = [0, 0], length_ap = Fin w\<rparr>" by simp
  show ?thesis
    using worker_ants_one_vertex_more [OF assms, of params ph j
        "DepositPheromone ap (q params) delta" "[ap]" r']
    by (simp add: Suc c ap kInfinity_def Let_def)
qed

lemma worker_one_vertex:
  assumes "VertexCount g = 1" "Weight g 0 0 = Fin w" "rng_in_range ops"
  shows "snd (worker ops g params tc ph it t) =
           replicate (ants params div tc + (if t < ants params mod tc then 1 else 0))
             \<lparr>path = [0, 0], length_ap = Fin w\<rparr>"
proof -
  let ?a = "ants params div tc + (if t < ants params mod tc then 1 else 0)"
  let ?st = "(zero_matrix g, kInfinity, [], rng_seed ops (worker_seed params t it))"
  obtain d tbl tbp r where wa: "worker_ants ops g params ph ?a ?st = (d, tbl, tbp, r)"
    by (cases "worker_ants ops g params ph ?a ?st") auto
  from worker_ants_one_vertex [OF assms, of params ph ?a "zero_matrix g"
      "rng_seed ops (worker_seed params t it)"] wa
  have "tbp = replicate ?a \<lparr>path = [0, 0], length_ap = Fin w\<rparr>" by simp
  then show ?thesis
    using wa by (cases "?a = 0") (simp_all add: worker_def Let_def)
qed

lemma merge_worker_one_vertex:
  assumes "res = initial_TourResult \<or> res = self_loop_result g (Fin w)"
  shows "merge_worker g res (replicate m \<lparr>path = [0, 0], length_ap = Fin w\<rparr>) =
           (if m = 0 then res else self_loop_result g (Fin w))"
  using assms
proof (induction m arbitrary: res)
  case 0
  then show ?case by (simp add: merge_worker_def)
next
  case (Suc m)
  have u: "UpdateBest g \<lparr>path = [0, 0], length_ap = Fin w\<rparr> res = self_loop_result g (Fin w)"
    using Suc.prems
    by (auto simp: UpdateBest_self_loop_first UpdateBest_self_loop_again initial_TourResult_def)
  show ?case
    using Suc.IH [of "self_loop_result g (Fin w)"]
    by (simp add: merge_worker_def u)
qed

lemma merge_order_one_vertex:
  assumes "\<forall>t \<in> set order. snd (locals ! t) = replicate (m t) \<lparr>path = [0, 0], length_ap = Fin w\<rparr>"
    and "res = initial_TourResult \<or> res = self_loop_result g (Fin w)"
  shows "foldl (\<lambda>r t. merge_worker g r (snd (locals ! t))) res order =
           (if res = self_loop_result g (Fin w) \<or> (\<exists>t \<in> set order. 0 < m t)
            then self_loop_result g (Fin w) else initial_TourResult)"
  using assms
proof (induction order arbitrary: res)
  case Nil
  then show ?case by auto
next
  case (Cons t order)
  let ?R = "self_loop_result g (Fin w)"
  have mw: "merge_worker g res (snd (locals ! t)) = (if m t = 0 then res else ?R)"
    using Cons.prems merge_worker_one_vertex [of res g w "m t"] by simp
  then have r': "merge_worker g res (snd (locals ! t)) = initial_TourResult \<or>
                 merge_worker g res (snd (locals ! t)) = ?R"
    using Cons.prems(2) by auto
  have "foldl (\<lambda>r t. merge_worker g r (snd (locals ! t))) (merge_worker g res (snd (locals ! t))) order =
          (if merge_worker g res (snd (locals ! t)) = ?R \<or> (\<exists>t \<in> set order. 0 < m t)
           then ?R else initial_TourResult)"
    using Cons.IH [OF _ r'] Cons.prems(1) by simp
  moreover have "initial_TourResult \<noteq> ?R"
    by (simp add: initial_TourResult_def self_loop_result_def)
  ultimately show ?case
    using mw Cons.prems(2) by auto
qed

lemma par_state_one_vertex:
  assumes "VertexCount g = 1" "Weight g 0 0 = Fin w" "rng_in_range ops" "0 < ants params"
    and "0 < tc" "schedule_ok tc sched k"
  shows "fst (par_state ops g params tc sched k) =
           (if k = 0 then initial_TourResult else self_loop_result g (Fin w))"
  using assms(6)
proof (induction k)
  case 0
  then show ?case by simp
next
  case (Suc k)
  let ?R = "self_loop_result g (Fin w)"
  let ?m = "\<lambda>t. ants params div tc + (if t < ants params mod tc then 1 else 0)"
  from Suc.prems have ok: "schedule_ok tc sched k" and ord: "set (sched k) = {0..<tc}"
    by (simp_all add: schedule_ok_def)
  obtain res ph where s: "par_state ops g params tc sched k = (res, ph)"
    by (cases "par_state ops g params tc sched k")
  with Suc.IH [OF ok] have res: "res = initial_TourResult \<or> res = ?R"
    by (auto split: if_splits)
  let ?locals = "map (worker ops g params tc ph k) [0..<tc]"
  have loc: "\<forall>t \<in> set (sched k). snd (?locals ! t) = replicate (?m t) \<lparr>path = [0, 0], length_ap = Fin w\<rparr>"
    using ord worker_one_vertex [OF assms(1-3)] by simp
  have pos: "0 < ?m 0"
    using assms(4,5) by (cases "ants params div tc = 0") (auto simp: div_eq_0_iff)
  have "0 \<in> set (sched k)" using ord assms(5) by simp
  with pos have ex: "\<exists>t \<in> set (sched k). 0 < ?m t" by blast
  have "foldl (\<lambda>r t. merge_worker g r (snd (?locals ! t))) res (sched k) = ?R"
    using merge_order_one_vertex [of "sched k" ?locals ?m w res g, OF loc res] ex by simp
  then show ?case
    by (simp add: s par_iteration_def Let_def)
qed

text \<open>
  Claim C1, as the code has it. On a graph with exactly one vertex whose weight from the
  vertex to itself is finite, with at least one ant, one iteration and one thread, both
  \<^const>\<open>RunSequential\<close> and \<^const>\<open>RunParallel\<close> return the tour \<open>[0, 0]\<close> with
  \<open>best_length\<close> that weight: the vertex followed by itself passes for a cycle.
\<close>

theorem one_vertex_runs:
  assumes "VertexCount g = 1" and "Weight g 0 0 = Fin w" and "rng_in_range ops"
    and "0 < ants params" and "0 < iterations params"
    and "0 < thread_count" and "schedule_ok thread_count sched (iterations params)"
  shows "RunSequential ops g params = self_loop_result g (Fin w) \<and>
         RunParallel ops g params sched thread_count = self_loop_result g (Fin w)"
  using seq_state_one_vertex [OF assms(1-4), of "iterations params"]
    par_state_one_vertex [OF assms(1-4) assms(6,7)] assms(5,6)
  by (simp add: RunSequential_def RunParallel_def)

theorem one_vertex_runs_witness:
  "VertexCount loop_graph = 1 \<and> Weight loop_graph 0 0 = Fin 1 \<and> rng_in_range counter_rng \<and>
   0 < ants default_params \<and> 0 < iterations default_params \<and> (0 :: nat) < 4 \<and>
   schedule_ok 4 (\<lambda>i. [0..<4]) (iterations default_params) \<and>
   RunSequential counter_rng loop_graph default_params = self_loop_result loop_graph (Fin 1) \<and>
   RunParallel counter_rng loop_graph default_params (\<lambda>i. [0..<4]) 4 =
     self_loop_result loop_graph (Fin 1)"
  using one_vertex_runs [of loop_graph 1 counter_rng default_params 4 "\<lambda>i. [0..<4]"]
  by (simp add: rng_in_range_counter VertexCount_def Weight_def loop_graph_def default_params_def
      schedule_ok_def)

text \<open>
  The graph read from the line \<^verbatim>\<open>A -> A\<close> has one vertex, and both runners return a finite
  \<open>best_length\<close> and one best path on it.
\<close>

theorem one_vertex_counterexample:
  "FromGraphviz ''A -> A'' = Inr loop_graph \<and> VertexCount loop_graph = 1 \<and>
   best_length (RunSequential counter_rng loop_graph default_params) = Fin 1 \<and>
   best_paths (RunSequential counter_rng loop_graph default_params) = [[0, 0]] \<and>
   best_length (RunParallel counter_rng loop_graph default_params (\<lambda>i. [0..<4]) 4) = Fin 1 \<and>
   best_paths (RunParallel counter_rng loop_graph default_params (\<lambda>i. [0..<4]) 4) = [[0, 0]]"
proof -
  have v: "VertexCount loop_graph = 1" and w: "Weight loop_graph 0 0 = Fin 1"
    by (simp_all add: VertexCount_def Weight_def loop_graph_def)
  have a: "0 < ants default_params" by (simp add: default_params_def)
  have s: "schedule_ok 4 (\<lambda>i. [0..<4]) (iterations default_params)"
    by (simp add: schedule_ok_def)
  have "fst (seq_state counter_rng loop_graph default_params (iterations default_params)) =
          self_loop_result loop_graph (Fin 1)"
    using seq_state_one_vertex [OF v w rng_in_range_counter a, of "iterations default_params"]
    by (simp add: default_params_def)
  moreover have "fst (par_state counter_rng loop_graph default_params 4 (\<lambda>i. [0..<4])
                        (iterations default_params)) = self_loop_result loop_graph (Fin 1)"
    using par_state_one_vertex [OF v w rng_in_range_counter a _ s]
    by (simp add: default_params_def)
  ultimately show ?thesis
    by (simp add: FromGraphviz_loop v RunSequential_def RunParallel_def self_loop_result_def)
qed

section \<open>Streams without edge lines, and the failures of the construction\<close>

lemma stod_error: "stod s = Inl e \<Longrightarrow> e = InvalidArgument \<or> e = OutOfRange"
  unfolding stod_def Let_def
  by (simp split: prod.splits if_splits)

lemma stod_invalid:
  assumes "take_sign s = (sg, s1)"
  shows "stod s = Inl InvalidArgument \<longleftrightarrow>
     takeWhile is_digit s1 = [] \<and>
     (case dropWhile is_digit s1 of [] \<Rightarrow> True
      | c # r \<Rightarrow> c = CHR ''.'' \<longrightarrow> takeWhile is_digit r = [])"
proof -
  define ip where "ip = takeWhile is_digit s1"
  define r1 where "r1 = dropWhile is_digit s1"
  define fr where "fr = (case r1 of
                        [] \<Rightarrow> ([], r1)
                      | c # r \<Rightarrow> if c = CHR ''.'' then (takeWhile is_digit r, dropWhile is_digit r)
                                 else ([], r1))"
  obtain fp r2 where fr2: "fr = (fp, r2)" by (cases fr)
  have fp: "fp = [] \<longleftrightarrow> (case r1 of [] \<Rightarrow> True
      | c # r \<Rightarrow> c = CHR ''.'' \<longrightarrow> takeWhile is_digit r = [])"
    using fr2 unfolding fr_def by (auto split: list.splits if_splits)
  have "stod s = Inl InvalidArgument \<longleftrightarrow> ip = [] \<and> fp = []"
    unfolding stod_def assms(1) Let_def prod.case ip_def [symmetric] r1_def [symmetric]
      fr_def [symmetric] fr2
    by (simp split: if_splits)
  then show ?thesis unfolding fp ip_def r1_def .
qed

lemma stod_not_invalid:
  assumes "take_sign s = (sg, s1)"
    and "takeWhile is_digit s1 \<noteq> [] \<or>
         (\<exists>r. dropWhile is_digit s1 = CHR ''.'' # r \<and> takeWhile is_digit r \<noteq> [])"
  shows "stod s \<noteq> Inl InvalidArgument"
proof
  assume "stod s = Inl InvalidArgument"
  then have t: "takeWhile is_digit s1 = []"
    and c: "case dropWhile is_digit s1 of [] \<Rightarrow> True
      | c # r \<Rightarrow> c = CHR ''.'' \<longrightarrow> takeWhile is_digit r = []"
    unfolding stod_invalid [OF assms(1)] by blast+
  from assms(2) t obtain r where d: "dropWhile is_digit s1 = CHR ''.'' # r"
    and n: "takeWhile is_digit r \<noteq> []" by blast
  from c have "takeWhile is_digit r = []" unfolding d by simp
  with n show False by (rule notE)
qed

lemma match_mantissa_shape:
  assumes "match_mantissa s = Some (m, r)"
  shows "(m = takeWhile is_digit s \<and> m \<noteq> []) \<or>
         (\<exists>rr. dropWhile is_digit s = CHR ''.'' # rr \<and> takeWhile is_digit rr \<noteq> [] \<and>
               m = takeWhile is_digit s @ CHR ''.'' # takeWhile is_digit rr)"
  using assms unfolding match_mantissa_def Let_def
  by (auto split: list.splits if_splits)

lemma match_exponent_head:
  assumes "match_exponent r = (ex, r')"
  shows "ex = [] \<or> hd ex = CHR ''e'' \<or> hd ex = CHR ''E''"
  using assms unfolding match_exponent_def Let_def
  by (auto split: list.splits if_splits prod.splits)

lemma not_digit_e: "\<not> is_digit CHR ''e''" "\<not> is_digit CHR ''E''" "\<not> is_digit CHR ''.''"
  "\<not> is_digit CHR ''-''" "\<not> is_digit CHR ''+''"
  by (simp_all add: is_digit_def)

lemma takeWhile_digits_append:
  assumes "ex = [] \<or> \<not> is_digit (hd ex)"
  shows "takeWhile is_digit (takeWhile is_digit s @ ex) = takeWhile is_digit s"
    and "dropWhile is_digit (takeWhile is_digit s @ ex) = ex"
proof -
  have a: "\<forall>x \<in> set (takeWhile is_digit s). is_digit x" by (auto dest: set_takeWhileD)
  have t: "takeWhile is_digit ex = []" and d: "dropWhile is_digit ex = ex"
    using assms by (cases ex; simp)+
  show "takeWhile is_digit (takeWhile is_digit s @ ex) = takeWhile is_digit s"
    using a by (simp add: takeWhile_append2 t)
  show "dropWhile is_digit (takeWhile is_digit s @ ex) = ex"
    using a by (simp add: dropWhile_append2 d)
qed

lemma match_number_stod:
  assumes "match_number s = Some (m, r)"
  shows "stod m \<noteq> Inl InvalidArgument"
proof -
  obtain sg s1 where ts: "take_sign s = (sg, s1)" by (cases "take_sign s")
  from assms ts obtain mm r0 where mm: "match_mantissa s1 = Some (mm, r0)"
    by (auto simp: match_number_def split: option.splits)
  obtain ex r' where ex: "match_exponent r0 = (ex, r')" by (cases "match_exponent r0")
  from assms ts mm ex have m: "m = sg @ mm @ ex"
    by (simp add: match_number_def)
  have exh: "ex = [] \<or> \<not> is_digit (hd ex)"
    using match_exponent_head [OF ex] not_digit_e by auto
  have sgc: "sg = [] \<or> sg = ''-'' \<or> sg = ''+''"
    using ts by (auto simp: take_sign_def split: list.splits if_splits)
  note shape = match_mantissa_shape [OF mm]
  have mmne: "mm \<noteq> []" using shape by auto
  have hd_mm: "is_digit (hd mm) \<or> hd mm = CHR ''.''"
  proof -
    from shape show ?thesis
    proof
      assume a: "mm = takeWhile is_digit s1 \<and> mm \<noteq> []"
      then have "hd mm \<in> set (takeWhile is_digit s1)" by (metis hd_in_set)
      then show ?thesis by (auto dest: set_takeWhileD)
    next
      assume "\<exists>rr. dropWhile is_digit s1 = CHR ''.'' # rr \<and> takeWhile is_digit rr \<noteq> [] \<and>
               mm = takeWhile is_digit s1 @ CHR ''.'' # takeWhile is_digit rr"
      then obtain rr where mmeq: "mm = takeWhile is_digit s1 @ CHR ''.'' # takeWhile is_digit rr"
        by blast
      show ?thesis
      proof (cases "takeWhile is_digit s1")
        case Nil
        then show ?thesis by (simp add: mmeq)
      next
        case (Cons d ds)
        then have "d \<in> set (takeWhile is_digit s1)" by simp
        then have "is_digit d" by (auto dest: set_takeWhileD)
        then show ?thesis by (simp add: mmeq Cons)
      qed
    qed
  qed
  have nosign: "hd mm \<noteq> CHR ''-'' \<and> hd mm \<noteq> CHR ''+''"
    using hd_mm not_digit_e by auto
  have ts': "take_sign m = (sg, mm @ ex)"
  proof -
    from sgc show ?thesis
    proof (elim disjE)
      assume "sg = []"
      with mmne nosign show ?thesis
        unfolding m by (cases mm) (auto simp: take_sign_def)
    next
      assume "sg = ''-''"
      then show ?thesis unfolding m by (simp add: take_sign_def)
    next
      assume "sg = ''+''"
      then show ?thesis unfolding m by (simp add: take_sign_def)
    qed
  qed
  have "takeWhile is_digit (mm @ ex) \<noteq> [] \<or>
        (\<exists>r. dropWhile is_digit (mm @ ex) = CHR ''.'' # r \<and> takeWhile is_digit r \<noteq> [])"
  proof -
    from shape show ?thesis
    proof
      assume a: "mm = takeWhile is_digit s1 \<and> mm \<noteq> []"
      then have "takeWhile is_digit (mm @ ex) = mm"
        using takeWhile_digits_append(1) [OF exh, of s1] by simp
      moreover from a have "mm \<noteq> []" by (rule conjunct2)
      ultimately have "takeWhile is_digit (mm @ ex) \<noteq> []" by (simp only: not_False_eq_True)
      then show ?thesis by (rule disjI1)
    next
      assume "\<exists>rr. dropWhile is_digit s1 = CHR ''.'' # rr \<and> takeWhile is_digit rr \<noteq> [] \<and>
               mm = takeWhile is_digit s1 @ CHR ''.'' # takeWhile is_digit rr"
      then obtain rr where ne: "takeWhile is_digit rr \<noteq> []"
        and mmeq: "mm = takeWhile is_digit s1 @ CHR ''.'' # takeWhile is_digit rr"
        by blast
      have e: "mm @ ex = takeWhile is_digit s1 @ (CHR ''.'' # takeWhile is_digit rr @ ex)"
        by (simp add: mmeq)
      have d: "dropWhile is_digit (mm @ ex) = CHR ''.'' # takeWhile is_digit rr @ ex"
        unfolding e
        by (rule takeWhile_digits_append(2)) (simp add: not_digit_e)
      have "takeWhile is_digit (takeWhile is_digit rr @ ex) = takeWhile is_digit rr"
        by (rule takeWhile_digits_append(1) [OF exh])
      with ne d show ?thesis by simp
    qed
  qed
  from stod_not_invalid [OF ts' this] show ?thesis .
qed

lemma match_keys_number:
  "match_keys ks s = Some m \<Longrightarrow> \<exists>t r. match_number t = Some (m, r)"
proof (induction ks)
  case Nil
  then show ?case by simp
next
  case (Cons k ks)
  from Cons.prems have "match_after_key (drop (length k) s) = Some m \<or> match_keys ks s = Some m"
    by (auto split: option.splits if_splits)
  then show ?case
  proof
    assume "match_after_key (drop (length k) s) = Some m"
    then show ?thesis
      by (auto simp: match_after_key_def split: list.splits if_splits)
  next
    assume "match_keys ks s = Some m"
    then show ?thesis by (rule Cons.IH)
  qed
qed

lemma search_weight_number:
  "search_weight s = Some m \<Longrightarrow> \<exists>t r. match_number t = Some (m, r)"
proof (induction s)
  case Nil
  then have "match_keys [''weight'', ''label'', ''w''] [] = Some m"
    by (simp only: search_weight.simps match_weight_def)
  then show ?case by (rule match_keys_number)
next
  case (Cons c cs)
  show ?case
  proof (cases "match_weight (c # cs)")
    case None
    with Cons show ?thesis by simp
  next
    case (Some m')
    with Cons.prems have "match_weight (c # cs) = Some m" by simp
    then have "match_keys [''weight'', ''label'', ''w''] (c # cs) = Some m"
      by (simp only: match_weight_def)
    then show ?thesis by (rule match_keys_number)
  qed
qed

lemma search_number_number:
  "search_number s = Some m \<Longrightarrow> \<exists>t r. match_number t = Some (m, r)"
proof (induction s)
  case Nil
  then show ?case by auto
next
  case (Cons c cs)
  show ?case
  proof (cases "match_number (c # cs)")
    case None
    with Cons show ?thesis by simp
  next
    case (Some mr)
    with Cons.prems show ?thesis by (cases mr) auto
  qed
qed

lemma ParseWeight_error:
  assumes "ParseWeight a = Inl e"
  shows "e = OutOfRange"
proof -
  from assms obtain m where m: "stod m = Inl e"
    and s: "search_weight (c_str a) = Some m \<or> search_number (c_str a) = Some m"
    unfolding ParseWeight_def Let_def
    by (cases "search_weight (c_str a)"; cases "search_number (c_str a)")
      (auto simp: map_sum_def split: sum.splits)
  from s obtain t r where "match_number t = Some (m, r)"
    using search_weight_number search_number_number by blast
  from match_number_stod [OF this] m stod_error [OF m] show ?thesis by auto
qed

lemma ParseEdgeLine_error:
  assumes "ParseEdgeLine line = Inl e"
  shows "e = OutOfRange"
  using assms unfolding ParseEdgeLine_def Let_def
  by (auto simp: no_edge_def dest: ParseWeight_error
      split: if_splits option.splits prod.splits sum.splits)

lemma read_edges_error:
  "read_edges lines = Inl e \<longleftrightarrow>
     (\<exists>ls l ls'. lines = ls @ l # ls' \<and> list_all parses ls \<and> ParseEdgeLine l = Inl e)"
proof (induction lines)
  case Nil
  then show ?case by simp
next
  case (Cons x xs)
  show ?case
  proof (cases "ParseEdgeLine x")
    case (Inl e')
    have "(\<exists>ls l ls'. x # xs = ls @ l # ls' \<and> list_all parses ls \<and> ParseEdgeLine l = Inl e)
          \<longleftrightarrow> e' = e"
    proof
      assume "\<exists>ls l ls'. x # xs = ls @ l # ls' \<and> list_all parses ls \<and> ParseEdgeLine l = Inl e"
      then obtain ls l ls' where d: "x # xs = ls @ l # ls'" "list_all parses ls"
        "ParseEdgeLine l = Inl e" by blast
      show "e' = e"
      proof (cases ls)
        case Nil
        with d Inl show ?thesis by simp
      next
        case (Cons y ys)
        with d have "parses x" by simp
        with Inl show ?thesis by (simp add: parses_def)
      qed
    next
      assume "e' = e"
      with Inl have "x # xs = [] @ x # xs \<and> list_all parses [] \<and> ParseEdgeLine x = Inl e"
        by simp
      then show "\<exists>ls l ls'. x # xs = ls @ l # ls' \<and> list_all parses ls \<and> ParseEdgeLine l = Inl e"
        by blast
    qed
    with Inl show ?thesis by auto
  next
    case (Inr ed)
    then have px: "parses x" by (simp add: parses_def)
    have "read_edges (x # xs) = Inl e \<longleftrightarrow> read_edges xs = Inl e"
      using Inr by (auto split: sum.splits)
    also have "\<dots> \<longleftrightarrow> (\<exists>ls l ls'. xs = ls @ l # ls' \<and> list_all parses ls \<and> ParseEdgeLine l = Inl e)"
      by (rule Cons.IH)
    also have "\<dots> \<longleftrightarrow> (\<exists>ls l ls'. x # xs = ls @ l # ls' \<and> list_all parses ls \<and> ParseEdgeLine l = Inl e)"
    proof
      assume "\<exists>ls l ls'. xs = ls @ l # ls' \<and> list_all parses ls \<and> ParseEdgeLine l = Inl e"
      then obtain ls l ls' where d: "xs = ls @ l # ls'" "list_all parses ls"
        "ParseEdgeLine l = Inl e" by blast
      then have "x # xs = (x # ls) @ l # ls' \<and> list_all parses (x # ls) \<and> ParseEdgeLine l = Inl e"
        using px by simp
      then show "\<exists>ls l ls'. x # xs = ls @ l # ls' \<and> list_all parses ls \<and> ParseEdgeLine l = Inl e"
        by blast
    next
      assume "\<exists>ls l ls'. x # xs = ls @ l # ls' \<and> list_all parses ls \<and> ParseEdgeLine l = Inl e"
      then obtain ls l ls' where d: "x # xs = ls @ l # ls'" "list_all parses ls"
        "ParseEdgeLine l = Inl e" by blast
      show "\<exists>ls l ls'. xs = ls @ l # ls' \<and> list_all parses ls \<and> ParseEdgeLine l = Inl e"
      proof (cases ls)
        case Nil
        with d Inr show ?thesis by simp
      next
        case (Cons y ys)
        with d have "xs = ys @ l # ls' \<and> list_all parses ys \<and> ParseEdgeLine l = Inl e" by simp
        then show ?thesis by blast
      qed
    qed
    finally show ?thesis .
  qed
qed

lemma read_edges_no_edge:
  assumes "list_all skipped_line lines"
  shows "read_edges lines = Inr []"
  using assms by (induction lines) (auto simp: skipped_line_def split: sum.splits)

lemma build_graph_Nil: "build_graph [] = empty_Graph"
  by (simp add: build_graph_def)

lemma FromGraphviz_error:
  "FromGraphviz input = Inl e \<longleftrightarrow>
     (\<exists>ls l ls'. getlines input = ls @ l # ls' \<and> list_all parses ls \<and> ParseEdgeLine l = Inl e)"
  unfolding read_edges_error [symmetric] FromGraphviz_def
  by (cases "read_edges (getlines input)") simp_all

text \<open>
  Claim C4, as the code has it. When every line of the stream is read without an exception
  and none gives an edge with two non-empty endpoints, \<^const>\<open>FromGraphviz\<close> returns the
  empty graph, with no vertex, and does not fail; so does \<^const>\<open>FromGraphvizFile\<close> on a file
  with that content. \<^const>\<open>FromGraphviz\<close> fails exactly when \<^const>\<open>ParseEdgeLine\<close> throws on
  some line, with the exception of the first such line, and that exception is always the
  \<^verbatim>\<open>out_of_range\<close> of \<^verbatim>\<open>std::stod\<close>. \<^const>\<open>FromGraphvizFile\<close> fails with \<^verbatim>\<open>runtime_error\<close>
  exactly when the file cannot be opened, and otherwise does what \<^const>\<open>FromGraphviz\<close> does
  on the content.
\<close>

theorem no_edge_lines_empty_graph:
  "(list_all skipped_line (getlines input) \<longrightarrow>
      FromGraphviz input = Inr empty_Graph \<and> VertexCount empty_Graph = 0 \<and>
      FromGraphvizFile (fs(file \<mapsto> input)) file = Inr empty_Graph) \<and>
   (FromGraphviz input = Inl e \<longleftrightarrow>
      (\<exists>ls l ls'. getlines input = ls @ l # ls' \<and> list_all parses ls \<and>
         ParseEdgeLine l = Inl e)) \<and>
   (ParseEdgeLine line = Inl e \<longrightarrow> e = OutOfRange) \<and>
   (FromGraphvizFile fs file = Inl RuntimeError \<longleftrightarrow> fs file = None) \<and>
   (fs file = Some input \<longrightarrow> FromGraphvizFile fs file = FromGraphviz input)"
proof (intro conjI impI)
  assume "list_all skipped_line (getlines input)"
  from read_edges_no_edge [OF this]
  show "FromGraphviz input = Inr empty_Graph" "VertexCount empty_Graph = 0"
    "FromGraphvizFile (fs(file \<mapsto> input)) file = Inr empty_Graph"
    by (simp_all add: FromGraphviz_def build_graph_Nil FromGraphvizFile_def VertexCount_def
        empty_Graph_def)
next
  show "FromGraphviz input = Inl e \<longleftrightarrow>
      (\<exists>ls l ls'. getlines input = ls @ l # ls' \<and> list_all parses ls \<and>
         ParseEdgeLine l = Inl e)"
    by (rule FromGraphviz_error)
next
  assume "ParseEdgeLine line = Inl e"
  then show "e = OutOfRange" by (rule ParseEdgeLine_error)
next
  have "FromGraphviz x \<noteq> Inl RuntimeError" for x
    using FromGraphviz_error [of x RuntimeError] ParseEdgeLine_error [of _ RuntimeError]
    by auto
  then show "FromGraphvizFile fs file = Inl RuntimeError \<longleftrightarrow> fs file = None"
    by (cases "fs file") (simp_all add: FromGraphvizFile_def)
next
  assume "fs file = Some input"
  then show "FromGraphvizFile fs file = FromGraphviz input"
    by (simp add: FromGraphvizFile_def)
qed

lemma getlines_digraph: "getlines ''digraph G {\<newline>}'' = [''digraph G {'', ''}'']"
  by (simp add: getlines_def)

lemma ParseEdgeLine_digraph: "ParseEdgeLine ''digraph G {'' = Inr no_edge"
  by (simp add: ParseEdgeLine_def Trim_def isspace_def Let_def)

lemma ParseEdgeLine_brace: "ParseEdgeLine ''}'' = Inr no_edge"
  by (simp add: ParseEdgeLine_def Trim_def isspace_def Let_def)

text \<open>
  The line \<^verbatim>\<open>"" -> C [w=1e400]\<close>, whose first endpoint is empty once the quotes are
  stripped, and the same line with the weight 2.
\<close>

lemma getlines_huge:
  "getlines (''A -> B\<newline>'' @ CHR 0x22 # CHR 0x22 # '' -> C [w=1e400]'') =
     [''A -> B''] @ (CHR 0x22 # CHR 0x22 # '' -> C [w=1e400]'') # []"
  by (simp add: getlines_def)

lemma ParseEdgeLine_huge:
  "ParseEdgeLine (CHR 0x22 # CHR 0x22 # '' -> C [w=1e400]'') = Inl OutOfRange"
  by (simp add: parse_defs)

lemma skipped_line_quotes: "skipped_line (CHR 0x22 # CHR 0x22 # '' -> C [w=2]'')"
  by (simp add: skipped_line_def parse_defs)

lemma parses_AB: "list_all parses [''A -> B'']"
  by (simp add: parses_def parse_defs)

theorem no_edge_lines_empty_graph_witness:
  "list_all skipped_line (getlines ''digraph G {\<newline>}'') \<and>
   FromGraphviz ''digraph G {\<newline>}'' = Inr empty_Graph \<and> VertexCount empty_Graph = 0 \<and>
   FromGraphvizFile [''g.dot'' \<mapsto> ''digraph G {\<newline>}''] ''g.dot'' = Inr empty_Graph \<and>
   list_all parses [''A -> B''] \<and>
   skipped_line (CHR 0x22 # CHR 0x22 # '' -> C [w=2]'') \<and>
   ParseEdgeLine (CHR 0x22 # CHR 0x22 # '' -> C [w=1e400]'') = Inl OutOfRange \<and>
   FromGraphviz (''A -> B\<newline>'' @ CHR 0x22 # CHR 0x22 # '' -> C [w=1e400]'') = Inl OutOfRange \<and>
   FromGraphvizFile Map.empty ''g.dot'' = Inl RuntimeError"
proof -
  have h: "list_all skipped_line (getlines ''digraph G {\<newline>}'')"
    by (simp add: getlines_digraph skipped_line_def ParseEdgeLine_digraph ParseEdgeLine_brace
        no_edge_def)
  note t = no_edge_lines_empty_graph [of "''digraph G {\<newline>}''" Map.empty "''g.dot''"
      OutOfRange "CHR 0x22 # CHR 0x22 # '' -> C [w=1e400]''"]
  note t' = no_edge_lines_empty_graph
      [of "''A -> B\<newline>'' @ CHR 0x22 # CHR 0x22 # '' -> C [w=1e400]''" Map.empty "''g.dot''"
        OutOfRange "CHR 0x22 # CHR 0x22 # '' -> C [w=1e400]''"]
  have 1: "FromGraphviz ''digraph G {\<newline>}'' = Inr empty_Graph \<and>
      VertexCount empty_Graph = 0 \<and>
      FromGraphvizFile [''g.dot'' \<mapsto> ''digraph G {\<newline>}''] ''g.dot'' = Inr empty_Graph"
    by (rule mp [OF conjunct1 [OF t] h])
  have "\<exists>ls l ls'.
      getlines (''A -> B\<newline>'' @ CHR 0x22 # CHR 0x22 # '' -> C [w=1e400]'') = ls @ l # ls' \<and>
      list_all parses ls \<and> ParseEdgeLine l = Inl OutOfRange"
    using getlines_huge parses_AB ParseEdgeLine_huge by blast
  then have 2:
    "FromGraphviz (''A -> B\<newline>'' @ CHR 0x22 # CHR 0x22 # '' -> C [w=1e400]'') = Inl OutOfRange"
    by (rule iffD2 [OF conjunct1 [OF conjunct2 [OF t']]])
  have 3: "FromGraphvizFile Map.empty ''g.dot'' = Inl RuntimeError"
    by (rule iffD2 [OF conjunct1 [OF conjunct2 [OF conjunct2 [OF conjunct2 [OF t]]]]]) simp
  from h 1 parses_AB skipped_line_quotes ParseEdgeLine_huge 2 3 show ?thesis
    by (elim conjE) (intro conjI)
qed

text \<open>
  A stream with a graph header and no edge: the caller gets a graph value, not a failure.
\<close>

theorem empty_stream_counterexample:
  "FromGraphviz ''digraph G {\<newline>}'' = Inr empty_Graph \<and>
   FromGraphviz ''digraph G {\<newline>}'' \<noteq> Inl RuntimeError \<and>
   VertexCount empty_Graph = 0"
  by (simp add: FromGraphviz_def getlines_digraph ParseEdgeLine_digraph ParseEdgeLine_brace
      no_edge_def build_graph_Nil VertexCount_def empty_Graph_def)
section \<open>Candidates of a step\<close>

lemma candidate_step_set:
  "set (fst (foldl (candidate_step g params ph visited current) st xs)) =
     set (fst st) \<union>
     {x \<in> set xs. \<not> visited ! x \<and> \<not> dle (candidate_value g params ph current x) (Fin 0)}"
proof (induction xs arbitrary: st)
  case Nil
  then show ?case by simp
next
  case (Cons x xs)
  obtain cs ps t where st: "st = (cs, ps, t)" by (cases st)
  show ?case
    unfolding foldl_Cons Cons.IH
    by (auto simp: st candidate_step_def Let_def)
qed

lemma candidate_step_lengths:
  "length (fst (snd st)) = length (fst st) \<Longrightarrow>
   length (fst (snd (foldl (candidate_step g params ph visited current) st xs))) =
     length (fst (foldl (candidate_step g params ph visited current) st xs))"
proof (induction xs arbitrary: st)
  case Nil
  then show ?case by simp
next
  case (Cons x xs)
  obtain cs ps t where st: "st = (cs, ps, t)" by (cases st)
  show ?case
    unfolding foldl_Cons
    by (rule Cons.IH) (use Cons.prems in \<open>simp add: st candidate_step_def Let_def\<close>)
qed

lemma collect_candidates_set:
  "set (fst (collect_candidates g params ph visited current)) =
     {x. x < VertexCount g \<and> \<not> visited ! x \<and>
         \<not> dle (candidate_value g params ph current x) (Fin 0)}"
  by (auto simp: collect_candidates_def candidate_step_set)

lemma collect_candidates_lengths:
  "collect_candidates g params ph visited current = (cs, ps, t) \<Longrightarrow> length ps = length cs"
  using candidate_step_lengths [of "([], [], Fin 0)" g params ph visited current "[0..<VertexCount g]"]
  by (simp add: collect_candidates_def)

lemma pick_index_bound: "pick_index choice cum i ps \<le> i + length ps"
proof (induction ps arbitrary: cum i)
  case Nil
  then show ?case by simp
next
  case (Cons p ps)
  show ?case using Cons.IH [of "dadd cum p" "Suc i"] by simp
qed

lemma choose_next_candidate:
  assumes "choose_next ops g params ph visited current r = Some (v, r')"
  shows "v \<in> set (fst (collect_candidates g params ph visited current))"
proof -
  obtain cs ps t where c: "collect_candidates g params ph visited current = (cs, ps, t)"
    by (cases "collect_candidates g params ph visited current")
  obtain ch r1 where u: "uniform_real ops t r = (ch, r1)" by (cases "uniform_real ops t r")
  from assms c u have ne: "cs \<noteq> []" and v: "v = cs ! pick_index ch (hd ps) 0 (tl ps)"
    by (auto simp: choose_next_def split: if_splits)
  have "length ps = length cs" by (rule collect_candidates_lengths [OF c])
  with ne have "pick_index ch (hd ps) 0 (tl ps) < length cs"
    using pick_index_bound [of ch "hd ps" 0 "tl ps"] by (cases ps) auto
  with v c show ?thesis by simp
qed

section \<open>Vertices without a usable edge\<close>

lemma Heuristic_no_edge:
  "dle w (Fin 0) \<or> isinf w \<Longrightarrow> Heuristic w = Fin 0"
  by (simp add: Heuristic_def)

lemma pow_zero_pos: "0 < b \<Longrightarrow> pow_d (Fin 0) (Fin b) = Fin 0"
  by (simp add: pow_fin_def)

lemma dmul_zero: "dmul t (Fin 0) = (if isfinite t then Fin 0 else NaN)"
  by (cases t) simp_all

lemma candidate_value_no_edge:
  assumes "beta params = Fin b" "0 < b"
    and "dle (Weight g current v) (Fin 0) \<or> isinf (Weight g current v)"
  shows "candidate_value g params ph current v =
           (if isfinite (pow_d (ph ! current ! v) (alpha params)) then Fin 0 else NaN)"
  unfolding candidate_value_def Let_def assms(1) Heuristic_no_edge [OF assms(3)]
    pow_zero_pos [OF assms(2)] dmul_zero ..

lemma to_double_finite: "\<bar>x\<bar> \<le> DBL_MAX \<Longrightarrow> isfinite (to_double x)"
  by (auto simp: to_double_def)

lemma pow_d_finite:
  assumes "0 < p" "p powr a \<le> DBL_MAX"
  shows "isfinite (pow_d (Fin p) (Fin a))"
proof -
  have "\<bar>p powr a\<bar> \<le> DBL_MAX" using assms(2) by simp
  from to_double_finite [OF this] show ?thesis using assms(1) by (simp add: pow_fin_def)
qed

lemma pow_overflow: "pow_fin 2 2000 = PInf"
proof -
  have "(2 :: real) powr 2000 = 2 ^ 2000"
    using powr_realpow [of "2 :: real" 2000] by simp
  moreover have "DBL_MAX < 2 ^ 2000" by (simp add: DBL_MAX_def)
  ultimately show ?thesis by (simp add: pow_fin_def to_double_def)
qed

text \<open>
  Claim C5, as the code has it. The code does not test the weight: it skips a vertex when
  \<^verbatim>\<open>pow(tau, alpha) * pow(Heuristic(w), beta) <= 0\<close>. With a positive finite \<open>beta\<close>, a vertex
  whose weight from the current vertex is at most zero or infinite is skipped, and is not
  the vertex chosen, when \<^verbatim>\<open>pow(tau, alpha)\<close> is finite; when that power is an infinity or
  NaN the product is NaN and the vertex, if not visited, is a candidate. The power is finite
  when the pheromone entry is positive and finite, \<open>alpha\<close> is finite and the power does not
  exceed the largest double.
\<close>

theorem no_edge_never_chosen:
  assumes "beta params = Fin b" and "0 < b"
    and "dle (Weight g current v) (Fin 0) \<or> isinf (Weight g current v)"
  shows "(isfinite (pow_d (pheromone ! current ! v) (alpha params)) \<longrightarrow>
            v \<notin> set (fst (collect_candidates g params pheromone visited current)) \<and>
            choose_next ops g params pheromone visited current r \<noteq> Some (v, r')) \<and>
         (\<not> isfinite (pow_d (pheromone ! current ! v) (alpha params)) \<and>
          v < VertexCount g \<and> \<not> visited ! v \<longrightarrow>
            v \<in> set (fst (collect_candidates g params pheromone visited current))) \<and>
         (pheromone ! current ! v = Fin p \<and> 0 < p \<and> alpha params = Fin a \<and>
          p powr a \<le> DBL_MAX \<longrightarrow>
            isfinite (pow_d (pheromone ! current ! v) (alpha params)))"
proof (intro conjI impI)
  note cv = candidate_value_no_edge [OF assms, of pheromone]
  {
    assume "isfinite (pow_d (pheromone ! current ! v) (alpha params))"
    with cv have "candidate_value g params pheromone current v = Fin 0" by simp
    then show n: "v \<notin> set (fst (collect_candidates g params pheromone visited current))"
      by (simp add: collect_candidates_set)
    then show "choose_next ops g params pheromone visited current r \<noteq> Some (v, r')"
      using choose_next_candidate [of ops g params pheromone visited current r v r'] by blast
  }
  {
    assume "\<not> isfinite (pow_d (pheromone ! current ! v) (alpha params)) \<and>
          v < VertexCount g \<and> \<not> visited ! v"
    with cv show "v \<in> set (fst (collect_candidates g params pheromone visited current))"
      by (simp add: collect_candidates_set)
  }
  {
    assume "pheromone ! current ! v = Fin p \<and> 0 < p \<and> alpha params = Fin a \<and>
          p powr a \<le> DBL_MAX"
    then show "isfinite (pow_d (pheromone ! current ! v) (alpha params))"
      using pow_d_finite [of p a] by simp
  }
qed

lemma one_way_no_edge:
  "dle (Weight one_way_graph 1 0) (Fin 0) \<or> isinf (Weight one_way_graph 1 0)"
  by (simp add: Weight_def one_way_graph_def)

theorem no_edge_never_chosen_witness:
  "beta default_params = Fin 3 \<and> (0 :: real) < 3 \<and> isinf (Weight one_way_graph 1 0) \<and>
   InitialPheromone one_way_graph ! 1 ! 0 = Fin 1 \<and> (0 :: real) < 1 \<and>
   alpha default_params = Fin 1 \<and> (1 :: real) powr 1 \<le> DBL_MAX \<and>
   isfinite (pow_d (InitialPheromone one_way_graph ! 1 ! 0) (alpha default_params)) \<and>
   0 \<notin> set (fst (collect_candidates one_way_graph default_params
                    (InitialPheromone one_way_graph) [False, True] 1)) \<and>
   choose_next counter_rng one_way_graph default_params (InitialPheromone one_way_graph)
     [False, True] 1 0 \<noteq> Some (0, 1) \<and>
   beta steep_params = Fin 3 \<and>
   \<not> isfinite (pow_d (two_matrix ! 1 ! 0) (alpha steep_params)) \<and>
   0 < VertexCount one_way_graph \<and> \<not> [False, True] ! 0 \<and>
   0 \<in> set (fst (collect_candidates one_way_graph steep_params two_matrix [False, True] 1))"
proof -
  have b: "beta default_params = Fin 3" and b': "beta steep_params = Fin 3"
    by (simp_all add: default_params_def steep_params_def)
  have pos: "(0 :: real) < 3" by simp
  have w: "isinf (Weight one_way_graph 1 0)" by (simp add: Weight_def one_way_graph_def)
  have p: "InitialPheromone one_way_graph ! 1 ! 0 = Fin 1"
    by (simp add: InitialPheromone_def VertexCount_def one_way_graph_def)
  have a: "alpha default_params = Fin 1" by (simp add: default_params_def)
  have one: "(0 :: real) < 1" by simp
  have le: "(1 :: real) powr 1 \<le> DBL_MAX" by (simp add: DBL_MAX_def)
  have o: "\<not> isfinite (pow_d (two_matrix ! 1 ! 0) (alpha steep_params))"
    by (simp add: two_matrix_def steep_params_def default_params_def pow_overflow)
  have v: "0 < VertexCount one_way_graph" "\<not> [False, True] ! 0"
    by (simp_all add: VertexCount_def one_way_graph_def)
  note t = no_edge_never_chosen [OF b pos one_way_no_edge,
      of "InitialPheromone one_way_graph" "[False, True]" counter_rng 0 1 1 1]
  note t' = no_edge_never_chosen [OF b' pos one_way_no_edge,
      of two_matrix "[False, True]" counter_rng 0 1 2 2000]
  from p one a le have "InitialPheromone one_way_graph ! 1 ! 0 = Fin 1 \<and> (0 :: real) < 1 \<and>
      alpha default_params = Fin 1 \<and> (1 :: real) powr 1 \<le> DBL_MAX"
    by (intro conjI)
  note f = mp [OF conjunct2 [OF conjunct2 [OF t]] this]
  note t1 = mp [OF conjunct1 [OF t] f]
  have 1: "0 \<notin> set (fst (collect_candidates one_way_graph default_params
                    (InitialPheromone one_way_graph) [False, True] 1))"
    by (rule conjunct1 [OF t1])
  have 2: "choose_next counter_rng one_way_graph default_params
      (InitialPheromone one_way_graph) [False, True] 1 0 \<noteq> Some (0, 1)"
    by (rule conjunct2 [OF t1])
  from o v have h: "\<not> isfinite (pow_d (two_matrix ! 1 ! 0) (alpha steep_params)) \<and>
      0 < VertexCount one_way_graph \<and> \<not> [False, True] ! 0"
    by (intro conjI)
  have 3:
    "0 \<in> set (fst (collect_candidates one_way_graph steep_params two_matrix [False, True] 1))"
    by (rule mp [OF conjunct1 [OF conjunct2 [OF t']] h])
  show ?thesis by (intro conjI b pos w p one a le f 1 2 b' o v 3)
qed

lemma steep_value:
  "candidate_value one_way_graph steep_params two_matrix 1 0 = NaN"
  using candidate_value_no_edge [OF _ _ one_way_no_edge, of steep_params 3 two_matrix]
  by (simp add: two_matrix_def steep_params_def default_params_def pow_overflow)

lemma steep_choice:
  "choose_next counter_rng one_way_graph steep_params two_matrix [False, True] 1 0 = Some (0, 1)"
proof -
  have n: "[0..<2] = [0, Suc 0]" by (simp add: upt_rec)
  have "collect_candidates one_way_graph steep_params two_matrix [False, True] 1 =
          ([0], [NaN], NaN)"
    using steep_value
    by (simp add: collect_candidates_def VertexCount_def one_way_graph_def n candidate_step_def)
  then show ?thesis by (simp add: choose_next_def counter_rng_def)
qed

text \<open>
  With \<open>beta = 0\<close> the vertex \<open>A\<close> is chosen from \<open>B\<close> in the graph of the line
  \<^verbatim>\<open>A -> B [w=2]\<close>, where the weight from \<open>B\<close> to \<open>A\<close> is infinite: \<^verbatim>\<open>pow(0, 0)\<close> is 1. With the
  default \<open>beta\<close> and an infinite pheromone entry the value of a vertex at weight \<open>-1\<close> is
  NaN, which is not \<^verbatim>\<open><= 0.0\<close>, and the vertex is chosen. The same happens with the finite
  pheromone 2 and \<open>alpha = 2000\<close>, where the power overflows.
\<close>

theorem chosen_without_edge_counterexample:
  "FromGraphviz ''A -> B [w=2]'' = Inr one_way_graph \<and>
   Weight one_way_graph 1 0 = PInf \<and>
   choose_next counter_rng one_way_graph (default_params\<lparr>beta := Fin 0\<rparr>)
     (InitialPheromone one_way_graph) [False, True] 1 0 = Some (0, 1) \<and>
   Weight neg_graph 1 0 = Fin (- 1) \<and>
   choose_next counter_rng neg_graph one_ant (fst (snd (seq_state counter_rng neg_graph one_ant 1)))
     [False, True] 1 0 = Some (0, 1) \<and>
   choose_next counter_rng one_way_graph steep_params two_matrix [False, True] 1 0 = Some (0, 1)"
proof -
  have "FromGraphviz ''A -> B [w=2]'' = Inr one_way_graph \<and>
   Weight one_way_graph 1 0 = PInf \<and>
   choose_next counter_rng one_way_graph (default_params\<lparr>beta := Fin 0\<rparr>)
     (InitialPheromone one_way_graph) [False, True] 1 0 = Some (0, 1) \<and>
   Weight neg_graph 1 0 = Fin (- 1) \<and>
   choose_next counter_rng neg_graph one_ant (fst (snd (seq_state counter_rng neg_graph one_ant 1)))
     [False, True] 1 0 = Some (0, 1)"
    unfolding FromGraphviz_one_way by code_simp
  with steep_choice show ?thesis by (simp only: simp_thms)
qed
section \<open>The order of the critical sections in RunParallel\<close>

lemma lens_Nil: "lens [] = {}"
  by (simp add: lens_def)

lemma lens_append: "lens (xs @ ys) = lens xs \<union> lens ys"
  by (auto simp: lens_def)

lemma lens_single:
  "lens [ap] = (case length_ap ap of Fin a \<Rightarrow> if path ap = [] then {} else {a} | _ \<Rightarrow> {})"
  by (cases "length_ap ap") (auto simp: lens_def)

lemma UpdateBest_skip:
  "path ap = [] \<or> \<not> isfinite (length_ap ap) \<Longrightarrow> UpdateBest g ap res = res"
  by (auto simp: UpdateBest_def)

lemma UpdateBest_length:
  assumes "path ap \<noteq> []" "length_ap ap = Fin c"
  shows "(best_paths res = [] \<or> dless (Fin (c + 1 / 10 ^ 9)) (best_length res) \<longrightarrow>
            best_length (UpdateBest g ap res) = Fin c \<and> best_paths (UpdateBest g ap res) \<noteq> []) \<and>
         (\<not> (best_paths res = [] \<or> dless (Fin (c + 1 / 10 ^ 9)) (best_length res)) \<longrightarrow>
            best_length (UpdateBest g ap res) = best_length res \<and>
            best_paths (UpdateBest g ap res) \<noteq> [])"
  using assms by (simp add: UpdateBest_def Let_def)

lemma best_ok_step:
  assumes "best_ok S res"
  shows "best_ok (S \<union> lens [ap]) (UpdateBest g ap res)"
proof (cases "path ap = [] \<or> \<not> isfinite (length_ap ap)")
  case True
  then have "lens [ap] = {}" by (cases "length_ap ap") (auto simp: lens_single)
  with assms UpdateBest_skip [OF True] show ?thesis by simp
next
  case False
  then obtain c where p: "path ap \<noteq> []" and c: "length_ap ap = Fin c"
    by (cases "length_ap ap") auto
  then have l: "lens [ap] = {c}" by (simp add: lens_single)
  note u = UpdateBest_length [OF p c, of res g]
  show ?thesis
  proof (cases "best_paths res = [] \<or> dless (Fin (c + 1 / 10 ^ 9)) (best_length res)")
    case True
    with u have bl: "best_length (UpdateBest g ap res) = Fin c"
      and bp: "best_paths (UpdateBest g ap res) \<noteq> []" by blast+
    have "c \<le> x + 1 / 10 ^ 9" if "x \<in> S" for x
    proof -
      from that have ne: "S \<noteq> {}" by blast
      with assms obtain a where bpr: "best_paths res \<noteq> []" and a: "best_length res = Fin a"
        and le: "\<forall>y \<in> S. a \<le> y + 1 / 10 ^ 9"
        unfolding best_ok_def by auto
      from True bpr a have "c + 1 / 10 ^ 9 < a" by simp
      moreover from le that have "a \<le> x + 1 / 10 ^ 9" by blast
      ultimately show ?thesis by simp
    qed
    then have "\<forall>x \<in> S \<union> {c}. c \<le> x + 1 / 10 ^ 9" by auto
    with bl bp show ?thesis unfolding best_ok_def l by auto
  next
    case False
    with u have bl: "best_length (UpdateBest g ap res) = best_length res"
      and bp: "best_paths (UpdateBest g ap res) \<noteq> []" by blast+
    from False have bpr: "best_paths res \<noteq> []" by blast
    have ne: "S \<noteq> {}"
    proof
      assume "S = {}"
      with assms have "res = initial_TourResult" by (simp add: best_ok_def)
      with bpr show False by (simp add: initial_TourResult_def)
    qed
    with assms obtain a where aS: "a \<in> S" and a: "best_length res = Fin a"
      and le: "\<forall>y \<in> S. a \<le> y + 1 / 10 ^ 9"
      unfolding best_ok_def by auto
    from False a have "a \<le> c + 1 / 10 ^ 9" by simp
    with le have "\<forall>x \<in> S \<union> {c}. a \<le> x + 1 / 10 ^ 9" by auto
    with aS a bl bp show ?thesis unfolding best_ok_def l by auto
  qed
qed

lemma best_ok_fold:
  "best_ok S res \<Longrightarrow> best_ok (S \<union> lens cs) (foldl (\<lambda>r ap. UpdateBest g ap r) res cs)"
proof (induction cs arbitrary: S res)
  case Nil
  then show ?case by (simp add: lens_Nil)
next
  case (Cons c cs)
  from Cons.IH [OF best_ok_step [OF Cons.prems, of c g]]
  have "best_ok (S \<union> lens [c] \<union> lens cs)
          (foldl (\<lambda>r ap. UpdateBest g ap r) (UpdateBest g c res) cs)" .
  moreover have "S \<union> lens [c] \<union> lens cs = S \<union> lens (c # cs)"
    using lens_append [of "[c]" cs] by auto
  ultimately show ?case by simp
qed

lemma best_ok_merge:
  assumes "best_ok S res" and "set order \<subseteq> {0..<tc}"
  shows "best_ok (S \<union> (\<Union>t \<in> set order. lens (snd (worker ops g params tc ph it t))))
           (foldl (\<lambda>r t. merge_worker g r
                     (snd (map (worker ops g params tc ph it) [0..<tc] ! t))) res order)"
  using assms
proof (induction order arbitrary: S res)
  case Nil
  then show ?case by simp
next
  case (Cons t ts)
  from Cons.prems(2) have t: "t < tc" and ts: "set ts \<subseteq> {0..<tc}" by auto
  have loc: "map (worker ops g params tc ph it) [0..<tc] ! t = worker ops g params tc ph it t"
    using t by simp
  let ?res = "merge_worker g res (snd (worker ops g params tc ph it t))"
  have "best_ok (S \<union> lens (snd (worker ops g params tc ph it t))) ?res"
    unfolding merge_worker_def by (rule best_ok_fold [OF Cons.prems(1)])
  from Cons.IH [OF this ts]
  have "best_ok (S \<union> lens (snd (worker ops g params tc ph it t)) \<union>
                 (\<Union>t \<in> set ts. lens (snd (worker ops g params tc ph it t))))
          (foldl (\<lambda>r t. merge_worker g r
                     (snd (map (worker ops g params tc ph it) [0..<tc] ! t))) ?res ts)" .
  moreover have "S \<union> lens (snd (worker ops g params tc ph it t)) \<union>
                 (\<Union>t \<in> set ts. lens (snd (worker ops g params tc ph it t))) =
                 S \<union> (\<Union>t \<in> set (t # ts). lens (snd (worker ops g params tc ph it t)))"
    by auto
  ultimately show ?case by (simp add: loc)
qed

lemma par_state_pheromone:
  "snd (par_state ops g params tc sched k) = snd (par_state ops g params tc sched' k)"
proof (induction k)
  case 0
  then show ?case by simp
next
  case (Suc k)
  obtain res ph where s: "par_state ops g params tc sched k = (res, ph)"
    by (cases "par_state ops g params tc sched k")
  obtain res' ph' where s': "par_state ops g params tc sched' k = (res', ph')"
    by (cases "par_state ops g params tc sched' k")
  from Suc s s' have "ph' = ph" by simp
  then show ?case by (simp add: s s' par_iteration_def Let_def)
qed

lemma best_ok_par_state:
  assumes "schedule_ok tc sched k"
  shows "best_ok (seen_lens ops g params tc k) (fst (par_state ops g params tc sched k))"
  using assms
proof (induction k)
  case 0
  then show ?case by (simp add: best_ok_def)
next
  case (Suc k)
  from Suc.prems have ok: "schedule_ok tc sched k" and s: "set (sched k) = {0..<tc}"
    by (simp_all add: schedule_ok_def)
  obtain res ph where st: "par_state ops g params tc sched k = (res, ph)"
    by (cases "par_state ops g params tc sched k")
  have ph: "snd (par_state ops g params tc (\<lambda>i. [0..<tc]) k) = ph"
    using par_state_pheromone [of ops g params tc "\<lambda>i. [0..<tc]" k sched] st by simp
  from Suc.IH [OF ok] st have "best_ok (seen_lens ops g params tc k) res" by simp
  from best_ok_merge [OF this, of "sched k" tc ops g params ph k] s
  have "best_ok (seen_lens ops g params tc k \<union> worker_lens ops g params tc ph k)
          (foldl (\<lambda>r t. merge_worker g r
                     (snd (map (worker ops g params tc ph k) [0..<tc] ! t))) res (sched k))"
    by (simp add: worker_lens_def)
  then show ?case
    by (simp add: st ph par_iteration_def Let_def)
qed

lemma best_ok_agree:
  assumes "best_ok S r" "best_ok S r'"
  shows "(best_paths r = [] \<longleftrightarrow> best_paths r' = []) \<and>
         \<not> dless (dadd (best_length r) kEps) (best_length r') \<and>
         \<not> dless (dadd (best_length r') kEps) (best_length r)"
proof (cases "S = {}")
  case True
  with assms show ?thesis by (simp add: best_ok_def initial_TourResult_def kEps_def kInfinity_def)
next
  case False
  with assms obtain a a' where "best_paths r \<noteq> []" "best_paths r' \<noteq> []"
    "best_length r = Fin a" "best_length r' = Fin a'" "a \<in> S" "a' \<in> S"
    "\<forall>c \<in> S. a \<le> c + 1 / 10 ^ 9" "\<forall>c \<in> S. a' \<le> c + 1 / 10 ^ 9"
    unfolding best_ok_def by auto
  then show ?thesis by (auto simp: kEps_def)
qed

lemma schedule_one:
  assumes "schedule_ok 1 sched k" "i < k"
  shows "sched i = [0]"
proof -
  from assms have d: "distinct (sched i)" and s: "set (sched i) = {0}"
    by (auto simp: schedule_ok_def)
  from s obtain x xs where c: "sched i = x # xs" by (cases "sched i") auto
  with s have x: "x = 0" by auto
  have "xs = []"
  proof (cases xs)
    case Nil then show ?thesis .
  next
    case (Cons y ys)
    with c s have "y = 0" by auto
    with c x Cons d show ?thesis by simp
  qed
  with c x show ?thesis by simp
qed

lemma par_state_same_schedule:
  "\<forall>i < k. sched i = sched' i \<Longrightarrow>
   par_state ops g params tc sched k = par_state ops g params tc sched' k"
  by (induction k) simp_all

text \<open>
  Claim C2, as the code has it. Each worker merges its best paths inside its own thread,
  under the mutex, so the merge order of an iteration is the order in which the threads get
  the lock, not the index order; the program does not fix it. Whatever these orders are in
  two runs on the same graph, parameters and thread count: both runs find a tour or neither
  does, and neither best length is below the other by more than \<^verbatim>\<open>1e-9\<close>, in the sense of
  the comparison that \<^const>\<open>UpdateBest\<close> makes. With one thread the two runs return the same
  result.
\<close>

theorem parallel_reproducible:
  assumes "schedule_ok thread_count sched (iterations params)"
    and "schedule_ok thread_count sched' (iterations params)"
  shows "(best_paths (RunParallel ops g params sched thread_count) = [] \<longleftrightarrow>
          best_paths (RunParallel ops g params sched' thread_count) = []) \<and>
         \<not> dless (dadd (best_length (RunParallel ops g params sched thread_count)) kEps)
                  (best_length (RunParallel ops g params sched' thread_count)) \<and>
         \<not> dless (dadd (best_length (RunParallel ops g params sched' thread_count)) kEps)
                  (best_length (RunParallel ops g params sched thread_count)) \<and>
         (thread_count = 1 \<longrightarrow>
            RunParallel ops g params sched thread_count =
            RunParallel ops g params sched' thread_count)"
proof (cases "thread_count = 0")
  case True
  then show ?thesis
    by (simp add: RunParallel_def initial_TourResult_def kEps_def kInfinity_def)
next
  case False
  note a = best_ok_agree [OF best_ok_par_state [OF assms(1), of ops g params]
      best_ok_par_state [OF assms(2), of ops g params]]
  have "par_state ops g params 1 sched (iterations params) =
        par_state ops g params 1 sched' (iterations params)" if "thread_count = 1"
  proof (rule par_state_same_schedule, intro allI impI)
    fix i assume "i < iterations params"
    with schedule_one assms that show "sched i = sched' i" by metis
  qed
  with a False show ?thesis by (simp add: RunParallel_def)
qed


lemma k4_worker_0:
  "snd (worker counter_rng k4_graph two_ants 2 (InitialPheromone k4_graph) 0 0) = [tour_abcd]"
  by code_simp

lemma k4_worker_1:
  "snd (worker counter_rng k4_graph two_ants 2 (InitialPheromone k4_graph) 0 (Suc 0)) = [tour_bacd]"
  by code_simp

lemma k4_merge_01:
  "merge_worker k4_graph (merge_worker k4_graph initial_TourResult [tour_abcd]) [tour_bacd] =
     \<lparr>best_length = Fin 4, best_paths = [[0, 1, 2, 3, 0], [0, 1, 3, 2, 0]],
      best_paths_labels = [''A->B->C->D->A'', ''A->B->D->C->A'']\<rparr>"
  by code_simp

lemma k4_merge_10:
  "merge_worker k4_graph (merge_worker k4_graph initial_TourResult [tour_bacd]) [tour_abcd] =
     \<lparr>best_length = Fin 4, best_paths = [[0, 1, 3, 2, 0], [0, 1, 2, 3, 0]],
      best_paths_labels = [''A->B->D->C->A'', ''A->B->C->D->A'']\<rparr>"
  by code_simp

lemma upt_0_2: "[0..<2] = [0, Suc 0]"
  by (simp add: upt_rec)

lemma k4_run_01:
  "RunParallel counter_rng k4_graph two_ants (\<lambda>i. [0, 1]) 2 =
     \<lparr>best_length = Fin 4, best_paths = [[0, 1, 2, 3, 0], [0, 1, 3, 2, 0]],
      best_paths_labels = [''A->B->C->D->A'', ''A->B->D->C->A'']\<rparr>"
proof -
  have "iterations two_ants = Suc 0" by (simp add: two_ants_def default_params_def)
  then show ?thesis
    by (simp add: RunParallel_def par_iteration_def Let_def upt_0_2 k4_worker_0 k4_worker_1
        k4_merge_01)
qed

lemma k4_run_10:
  "RunParallel counter_rng k4_graph two_ants (\<lambda>i. [1, 0]) 2 =
     \<lparr>best_length = Fin 4, best_paths = [[0, 1, 3, 2, 0], [0, 1, 2, 3, 0]],
      best_paths_labels = [''A->B->D->C->A'', ''A->B->C->D->A'']\<rparr>"
proof -
  have "iterations two_ants = Suc 0" by (simp add: two_ants_def default_params_def)
  then show ?thesis
    by (simp add: RunParallel_def par_iteration_def Let_def upt_0_2 k4_worker_0 k4_worker_1
        k4_merge_10)
qed

lemma k4_schedules:
  "schedule_ok 2 (\<lambda>i. [0, 1]) (iterations two_ants)"
  "schedule_ok 2 (\<lambda>i. [1, 0]) (iterations two_ants)"
  by (auto simp: schedule_ok_def)

lemma one_schedules:
  "schedule_ok 1 (\<lambda>i. [0]) (iterations two_ants)"
  "schedule_ok 1 (\<lambda>i. if i < 1 then [0] else []) (iterations two_ants)"
  by (auto simp: schedule_ok_def two_ants_def default_params_def)

theorem parallel_reproducible_witness:
  "schedule_ok 2 (\<lambda>i. [0, 1]) (iterations two_ants) \<and>
   schedule_ok 2 (\<lambda>i. [1, 0]) (iterations two_ants) \<and>
   best_paths (RunParallel counter_rng k4_graph two_ants (\<lambda>i. [0, 1]) 2) \<noteq> [] \<and>
   best_paths (RunParallel counter_rng k4_graph two_ants (\<lambda>i. [1, 0]) 2) \<noteq> [] \<and>
   \<not> dless (dadd (best_length (RunParallel counter_rng k4_graph two_ants (\<lambda>i. [0, 1]) 2)) kEps)
            (best_length (RunParallel counter_rng k4_graph two_ants (\<lambda>i. [1, 0]) 2)) \<and>
   \<not> dless (dadd (best_length (RunParallel counter_rng k4_graph two_ants (\<lambda>i. [1, 0]) 2)) kEps)
            (best_length (RunParallel counter_rng k4_graph two_ants (\<lambda>i. [0, 1]) 2)) \<and>
   schedule_ok 1 (\<lambda>i. [0]) (iterations two_ants) \<and>
   schedule_ok 1 (\<lambda>i. if i < 1 then [0] else []) (iterations two_ants) \<and>
   RunParallel counter_rng k4_graph two_ants (\<lambda>i. [0]) 1 =
     RunParallel counter_rng k4_graph two_ants (\<lambda>i. if i < 1 then [0] else []) 1"
proof -
  note t = parallel_reproducible [OF k4_schedules, of counter_rng k4_graph]
  note t' = parallel_reproducible [OF one_schedules, of counter_rng k4_graph]
  have ne: "best_paths (RunParallel counter_rng k4_graph two_ants (\<lambda>i. [0, 1]) 2) \<noteq> []"
    unfolding k4_run_01 by simp
  from t ne have ne': "best_paths (RunParallel counter_rng k4_graph two_ants (\<lambda>i. [1, 0]) 2) \<noteq> []"
    by (elim conjE) (simp only: not_False_eq_True)
  from t' have eq: "RunParallel counter_rng k4_graph two_ants (\<lambda>i. [0]) 1 =
     RunParallel counter_rng k4_graph two_ants (\<lambda>i. if i < 1 then [0] else []) 1"
    by (elim conjE) simp
  from t k4_schedules one_schedules ne ne' eq show ?thesis by (elim conjE) (intro conjI)
qed

lemma near_worker_0:
  "snd (worker counter_rng near_graph flat_ants 2 (InitialPheromone near_graph) 0 0) = [near_abcd]"
  by code_simp

lemma near_worker_1:
  "snd (worker counter_rng near_graph flat_ants 2 (InitialPheromone near_graph) 0 (Suc 0)) = [tour_bacd]"
  by code_simp

lemma near_merge_01:
  "best_length (merge_worker near_graph (merge_worker near_graph initial_TourResult [near_abcd]) [tour_bacd]) =
     Fin (8000000001 / 2000000000)"
  by code_simp

lemma near_merge_10:
  "best_length (merge_worker near_graph (merge_worker near_graph initial_TourResult [tour_bacd]) [near_abcd]) =
     Fin 4"
  by code_simp


lemma near_run_01:
  "best_length (RunParallel counter_rng near_graph flat_ants (\<lambda>i. [0, 1]) 2) =
     Fin (8000000001 / 2000000000)"
proof -
  have "iterations flat_ants = Suc 0" by (simp add: flat_ants_def default_params_def)
  then show ?thesis
    by (simp add: RunParallel_def par_iteration_def Let_def upt_0_2 near_worker_0 near_worker_1
        near_merge_01)
qed

lemma near_run_10:
  "best_length (RunParallel counter_rng near_graph flat_ants (\<lambda>i. [1, 0]) 2) = Fin 4"
proof -
  have "iterations flat_ants = Suc 0" by (simp add: flat_ants_def default_params_def)
  then show ?thesis
    by (simp add: RunParallel_def par_iteration_def Let_def upt_0_2 near_worker_0 near_worker_1
        near_merge_10)
qed

lemma near_line: "ParseEdgeLine ''B -- C [w=1.0000000005]'' =
    Inr \<lparr>edge_from = ''B'', edge_to = ''C'', weight = Fin (2000000001 / 2000000000), bidirectional = True\<rparr>"
  by (simp add: parse_defs)


lemma plain_lines:
  "ParseEdgeLine ''A -- B'' = Inr \<lparr>edge_from = ''A'', edge_to = ''B'', weight = Fin 1, bidirectional = True\<rparr>"
  "ParseEdgeLine ''A -- C'' = Inr \<lparr>edge_from = ''A'', edge_to = ''C'', weight = Fin 1, bidirectional = True\<rparr>"
  "ParseEdgeLine ''A -- D'' = Inr \<lparr>edge_from = ''A'', edge_to = ''D'', weight = Fin 1, bidirectional = True\<rparr>"
  "ParseEdgeLine ''B -- D'' = Inr \<lparr>edge_from = ''B'', edge_to = ''D'', weight = Fin 1, bidirectional = True\<rparr>"
  "ParseEdgeLine ''C -- D'' = Inr \<lparr>edge_from = ''C'', edge_to = ''D'', weight = Fin 1, bidirectional = True\<rparr>"
  by code_simp+

lemma near_getlines:
  "getlines ''A -- B\<newline>A -- C\<newline>A -- D\<newline>B -- C [w=1.0000000005]\<newline>B -- D\<newline>C -- D'' =
     [''A -- B'', ''A -- C'', ''A -- D'', ''B -- C [w=1.0000000005]'', ''B -- D'', ''C -- D'']"
  by code_simp

lemma near_build:
  "build_graph [\<lparr>edge_from = ''A'', edge_to = ''B'', weight = Fin 1, bidirectional = True\<rparr>,
          \<lparr>edge_from = ''A'', edge_to = ''C'', weight = Fin 1, bidirectional = True\<rparr>,
          \<lparr>edge_from = ''A'', edge_to = ''D'', weight = Fin 1, bidirectional = True\<rparr>,
          \<lparr>edge_from = ''B'', edge_to = ''C'', weight = Fin (2000000001 / 2000000000), bidirectional = True\<rparr>,
          \<lparr>edge_from = ''B'', edge_to = ''D'', weight = Fin 1, bidirectional = True\<rparr>,
          \<lparr>edge_from = ''C'', edge_to = ''D'', weight = Fin 1, bidirectional = True\<rparr>] = near_graph"
  by code_simp

lemma near_parse:
  "FromGraphviz ''A -- B\<newline>A -- C\<newline>A -- D\<newline>B -- C [w=1.0000000005]\<newline>B -- D\<newline>C -- D'' = Inr near_graph"
  unfolding FromGraphviz_def near_getlines
  by (simp add: plain_lines near_line near_build)

text \<open>
  On the complete graph with four vertices, two workers with one ant each find two tours of
  length 4 with different canonical forms. The order of the two labels in the result is
  the order in which the workers got the lock. When the line of \<open>B\<close> and \<open>C\<close> has the weight
  \<^verbatim>\<open>1.0000000005\<close>, the two tours have lengths within \<^verbatim>\<open>1e-9\<close> of each other, and the best
  length of the result is the length of the tour of the worker that got the lock first.
\<close>

theorem parallel_order_counterexample:
  "FromGraphviz ''A -- B\<newline>A -- C\<newline>A -- D\<newline>B -- C\<newline>B -- D\<newline>C -- D'' = Inr k4_graph \<and>
   schedule_ok 2 (\<lambda>i. [0, 1]) (iterations two_ants) \<and>
   schedule_ok 2 (\<lambda>i. [1, 0]) (iterations two_ants) \<and>
   best_paths_labels (RunParallel counter_rng k4_graph two_ants (\<lambda>i. [0, 1]) 2) =
     [''A->B->C->D->A'', ''A->B->D->C->A''] \<and>
   best_paths_labels (RunParallel counter_rng k4_graph two_ants (\<lambda>i. [1, 0]) 2) =
     [''A->B->D->C->A'', ''A->B->C->D->A''] \<and>
   FromGraphviz ''A -- B\<newline>A -- C\<newline>A -- D\<newline>B -- C [w=1.0000000005]\<newline>B -- D\<newline>C -- D'' =
     Inr near_graph \<and>
   schedule_ok 2 (\<lambda>i. [0, 1]) (iterations flat_ants) \<and>
   schedule_ok 2 (\<lambda>i. [1, 0]) (iterations flat_ants) \<and>
   best_length (RunParallel counter_rng near_graph flat_ants (\<lambda>i. [0, 1]) 2) =
     Fin (8000000001 / 2000000000) \<and>
   best_length (RunParallel counter_rng near_graph flat_ants (\<lambda>i. [1, 0]) 2) = Fin 4"
proof -
  have "schedule_ok 2 (\<lambda>i. [0, 1]) k" and "schedule_ok 2 (\<lambda>i. [1, 0]) k" for k
    by (auto simp: schedule_ok_def)
  then show ?thesis
    unfolding k4_parse k4_run_01 k4_run_10 near_parse near_run_01 near_run_10 by simp
qed
section \<open>The pheromone after an iteration\<close>

text \<open>
  Claim C7 at inputs where it fails. A tour of length zero makes \<^verbatim>\<open>DepositPheromone\<close> divide
  by zero. On the graph of the lines \<^verbatim>\<open>A -> B [w=1]\<close> and \<^verbatim>\<open>B -> A [w=-1]\<close>, with the default
  parameters and one ant, the tour from \<open>A\<close> has length 0: after the first iteration of
  either runner two entries of the pheromone are infinite. With \<open>evaporation = 1\<close> and
  \<open>q = 0\<close> they are NaN, not the floor. On the graph of the line \<^verbatim>\<open>A -- B [w=0]\<close> with
  \<open>beta = 0\<close> the same happens with weights that are not negative.
\<close>

theorem pheromone_not_finite:
  "FromGraphviz ''A -> B [w=1]\<newline>B -> A [w=-1]'' = Inr neg_graph \<and>
   fst (snd (seq_state counter_rng neg_graph one_ant 1)) =
     [[Fin (1 / 2), PInf], [PInf, Fin (1 / 2)]] \<and>
   snd (par_state counter_rng neg_graph one_ant 1 (\<lambda>i. [0]) 1) =
     [[Fin (1 / 2), PInf], [PInf, Fin (1 / 2)]] \<and>
   fst (snd (seq_state counter_rng neg_graph (one_ant\<lparr>evaporation := Fin 1, q := Fin 0\<rparr>) 1)) =
     [[Fin (1 / 10 ^ 12), NaN], [NaN, Fin (1 / 10 ^ 12)]] \<and>
   FromGraphviz ''A -- B [w=0]'' = Inr zero_graph \<and>
   fst (snd (seq_state counter_rng zero_graph (one_ant\<lparr>beta := Fin 0\<rparr>) 1)) =
     [[Fin (1 / 2), PInf], [PInf, Fin (1 / 2)]]"
  unfolding FromGraphviz_neg FromGraphviz_zero by code_simp

section \<open>Canonicalization of short tours\<close>

text \<open>
  Claim C10. A tour with at most one element is returned unchanged by
  \<^const>\<open>CanonicalizeTour\<close>; in particular a single-element tour is not re-closed.
\<close>

theorem CanonicalizeTour_short:
  "length tour \<le> 1 \<Longrightarrow> CanonicalizeTour g tour = tour"
  by (simp add: CanonicalizeTour_def)

theorem CanonicalizeTour_short_witness:
  "length [2 :: nat] \<le> 1 \<and> CanonicalizeTour empty_Graph [2] = [2] \<and>
   CanonicalizeTour empty_Graph [2] \<noteq> [2, 2]"
  using CanonicalizeTour_short [of "[2]" empty_Graph] by simp
section \<open>The graph built by FromGraphviz\<close>

lemma set_entry_nth:
  assumes "i < length a" "j < length (a ! i)"
  shows "set_entry a fi ti v ! i ! j = (if i = fi \<and> j = ti then v else a ! i ! j)"
  using assms by (cases "i = fi") (simp_all add: set_entry_def)

lemma square_set_entry: "square_matrix n a \<Longrightarrow> square_matrix n (set_entry a i j v)"
  by (cases "i < length a")
    (auto simp: square_matrix_def set_entry_def list_all_length nth_list_update)

lemma square_nth: "square_matrix n a \<Longrightarrow> i < n \<Longrightarrow> i < length a \<and> length (a ! i) = n"
  by (auto simp: square_matrix_def list_all_length)

lemma square_replicate: "square_matrix n (replicate n (replicate n v))"
  by (simp add: square_matrix_def list_all_length)

lemma diagonal_fold:
  assumes "square_matrix n a" "i < n" "j < n"
  shows "square_matrix n (foldl (\<lambda>a i. set_entry a i i v) a [0..<m]) \<and>
         foldl (\<lambda>a i. set_entry a i i v) a [0..<m] ! i ! j =
           (if i = j \<and> i < m then v else a ! i ! j)"
proof (induction m)
  case 0
  then show ?case using assms by simp
next
  case (Suc m)
  let ?a = "foldl (\<lambda>a i. set_entry a i i v) a [0..<m]"
  from Suc have sq: "square_matrix n ?a" by simp
  from square_nth [OF sq assms(2)] assms(3)
  have "set_entry ?a m m v ! i ! j = (if i = m \<and> j = m then v else ?a ! i ! j)"
    by (intro set_entry_nth) simp_all
  then show ?case
    using Suc square_set_entry [OF sq, of m m v] by auto
qed

lemma store_edge_None:
  "map_of l2i (edge_from e) = None \<or> map_of l2i (edge_to e) = None \<Longrightarrow> store_edge l2i a e = a"
  by (cases "map_of l2i (edge_from e)"; cases "map_of l2i (edge_to e)")
    (simp_all add: store_edge_def)

lemma store_edge_Some:
  "map_of l2i (edge_from e) = Some fi \<Longrightarrow> map_of l2i (edge_to e) = Some ti \<Longrightarrow>
   store_edge l2i a e =
     (if bidirectional e then set_entry (set_entry a fi ti (weight e)) ti fi (weight e)
      else set_entry a fi ti (weight e))"
  by (simp add: store_edge_def Let_def)

lemma store_edge_square: "square_matrix n a \<Longrightarrow> square_matrix n (store_edge l2i a e)"
proof (cases "map_of l2i (edge_from e) = None \<or> map_of l2i (edge_to e) = None")
  case True
  assume "square_matrix n a"
  then show ?thesis by (simp only: store_edge_None [OF True])
next
  case False
  assume sq: "square_matrix n a"
  from False obtain fi ti where f: "map_of l2i (edge_from e) = Some fi"
    and t: "map_of l2i (edge_to e) = Some ti" by auto
  show ?thesis
    unfolding store_edge_Some [OF f t]
    using square_set_entry [OF sq, of fi ti "weight e"]
      square_set_entry [OF square_set_entry [OF sq, of fi ti "weight e"], of ti fi "weight e"]
    by simp
qed

lemma store_edge_entry:
  assumes "square_matrix n a" "i < n" "j < n"
  shows "store_edge l2i a e ! i ! j = a ! i ! j \<or>
         (store_edge l2i a e ! i ! j = weight e \<and>
          ((map_of l2i (edge_from e) = Some i \<and> map_of l2i (edge_to e) = Some j) \<or>
           (map_of l2i (edge_from e) = Some j \<and> map_of l2i (edge_to e) = Some i)))"
proof (cases "map_of l2i (edge_from e) = None \<or> map_of l2i (edge_to e) = None")
  case True
  show ?thesis by (simp add: store_edge_None [OF True])
next
  case False
  then obtain fi ti where f: "map_of l2i (edge_from e) = Some fi"
    and t: "map_of l2i (edge_to e) = Some ti" by auto
  let ?a1 = "set_entry a fi ti (weight e)"
  have sq1: "square_matrix n ?a1" by (rule square_set_entry [OF assms(1)])
  have 1: "?a1 ! i ! j = (if i = fi \<and> j = ti then weight e else a ! i ! j)"
    using square_nth [OF assms(1,2)] assms(3) by (intro set_entry_nth) simp_all
  have 2: "set_entry ?a1 ti fi (weight e) ! i ! j =
             (if i = ti \<and> j = fi then weight e else ?a1 ! i ! j)"
    using square_nth [OF sq1 assms(2)] assms(3) by (intro set_entry_nth) simp_all
  have r: "store_edge l2i a e ! i ! j =
             (if bidirectional e \<and> i = ti \<and> j = fi then weight e
              else if i = fi \<and> j = ti then weight e else a ! i ! j)"
    unfolding store_edge_Some [OF f t]
    by (cases "bidirectional e") (simp_all only: 1 2 simp_thms if_True if_False)
  consider (rev_dir) "bidirectional e \<and> i = ti \<and> j = fi"
    | (fwd_dir) "\<not> (bidirectional e \<and> i = ti \<and> j = fi)" "i = fi \<and> j = ti"
    | (untouched) "\<not> (bidirectional e \<and> i = ti \<and> j = fi)" "\<not> (i = fi \<and> j = ti)"
    by blast
  then show ?thesis
  proof cases
    case rev_dir
    then have "store_edge l2i a e ! i ! j = weight e" unfolding r by simp
    moreover have "map_of l2i (edge_from e) = Some j" "map_of l2i (edge_to e) = Some i"
      using f t rev_dir by blast+
    ultimately show ?thesis by blast
  next
    case fwd_dir
    then have "store_edge l2i a e ! i ! j = weight e" unfolding r by simp
    moreover have "map_of l2i (edge_from e) = Some i" "map_of l2i (edge_to e) = Some j"
      using f t fwd_dir by blast+
    ultimately show ?thesis by blast
  next
    case untouched
    then have "store_edge l2i a e ! i ! j = a ! i ! j" unfolding r by (simp only: if_False)
    then show ?thesis by blast
  qed
qed

lemma store_edges_entry:
  assumes "i < n" "j < n"
  shows "square_matrix n a \<Longrightarrow>
         square_matrix n (foldl (store_edge l2i) a es) \<and>
         (foldl (store_edge l2i) a es ! i ! j = a ! i ! j \<or>
          (\<exists>e \<in> set es. foldl (store_edge l2i) a es ! i ! j = weight e \<and>
             ((map_of l2i (edge_from e) = Some i \<and> map_of l2i (edge_to e) = Some j) \<or>
              (map_of l2i (edge_from e) = Some j \<and> map_of l2i (edge_to e) = Some i))))"
proof (induction es arbitrary: a)
  case Nil
  then show ?case by simp
next
  case (Cons e es)
  let ?a = "store_edge l2i a e"
  have sq: "square_matrix n ?a" by (rule store_edge_square [OF Cons.prems])
  note ih = Cons.IH [OF sq]
  note st = store_edge_entry [OF Cons.prems assms, of l2i e]
  from ih have "square_matrix n (foldl (store_edge l2i) ?a es)" by blast
  moreover from ih st have
    "foldl (store_edge l2i) ?a es ! i ! j = a ! i ! j \<or>
     (\<exists>e' \<in> set (e # es). foldl (store_edge l2i) ?a es ! i ! j = weight e' \<and>
        ((map_of l2i (edge_from e') = Some i \<and> map_of l2i (edge_to e') = Some j) \<or>
         (map_of l2i (edge_from e') = Some j \<and> map_of l2i (edge_to e') = Some i)))"
    by (elim conjE disjE bexE) (simp_all, blast+)
  ultimately show ?case by simp
qed


lemma stod_finite: "stod s = Inr w \<Longrightarrow> isfinite w"
  unfolding stod_def Let_def
  by (simp split: prod.splits if_splits) auto

lemma ParseWeight_finite:
  assumes "ParseWeight a = Inr (Some w)"
  shows "isfinite w"
proof -
  from assms obtain m where "stod m = Inr w"
    unfolding ParseWeight_def Let_def
    by (cases "search_weight (c_str a)"; cases "search_number (c_str a)")
      (auto simp: map_sum_def split: sum.splits)
  then show ?thesis by (rule stod_finite)
qed

lemma ParseEdgeLine_finite:
  assumes "ParseEdgeLine line = Inr e"
  shows "isfinite (weight e)"
  using assms unfolding ParseEdgeLine_def Let_def
  by (auto simp: no_edge_def dest: ParseWeight_finite
      split: if_splits option.splits prod.splits sum.splits)

lemma read_edges_finite:
  "read_edges lines = Inr edges \<Longrightarrow> list_all (\<lambda>e. isfinite (weight e)) edges"
proof (induction lines arbitrary: edges)
  case Nil
  then show ?case by simp
next
  case (Cons line lines)
  from Cons.prems obtain e es where e: "ParseEdgeLine line = Inr e"
    and es: "read_edges lines = Inr es"
    and r: "edges = (if edge_from e = [] \<or> edge_to e = [] then es else e # es)"
    by (auto split: sum.splits if_splits)
  from Cons.IH [OF es] ParseEdgeLine_finite [OF e] show ?case
    unfolding r by simp
qed


lemma index_pairs_zip: "index_pairs L = zip L [0..<length L]"
  unfolding index_pairs_def by (rule nth_equalityI) simp_all

lemma index_pairs_lookup:
  assumes "distinct L" "i < length L"
  shows "map_of (index_pairs L) (L ! i) = Some i"
  using map_of_zip_nth [of L "[0..<length L]" i] assms by (simp add: index_pairs_zip)

lemma index_pairs_key:
  assumes "map_of (index_pairs L) l = Some i"
  shows "i < length L \<and> L ! i = l"
  using map_of_SomeD [OF assms] by (auto simp: index_pairs_def)

lemma build_graph_fields:
  "build_graph edges =
     \<lparr>index_to_label = edge_labels edges, label_to_index = index_pairs (edge_labels edges),
      adjacency = foldl (store_edge (index_pairs (edge_labels edges)))
        (foldl (\<lambda>a i. set_entry a i i (Fin 0))
           (replicate (length (edge_labels edges)) (replicate (length (edge_labels edges)) PInf))
           [0..<length (edge_labels edges)])
        edges\<rparr>"
proof (cases edges)
  case Nil
  then show ?thesis
    by (simp add: build_graph_def empty_Graph_def edge_labels_def index_pairs_def)
next
  case (Cons e es)
  then have "remdups (concat (map (\<lambda>e. [edge_from e, edge_to e]) edges)) \<noteq> []"
    by (simp del: remdups.simps add: remdups_eq_nil_iff)
  then show ?thesis
    by (simp add: build_graph_def Let_def edge_labels_def index_pairs_def kInfinity_def
        del: remdups.simps)
qed

lemma label_index_inverse_build: "label_index_inverse (build_graph edges)"
proof -
  have d: "distinct (edge_labels edges)" by (simp add: edge_labels_def)
  show ?thesis
    unfolding label_index_inverse_def build_graph_fields VertexCount_def Label_def
    using index_pairs_lookup [OF d] index_pairs_key [of "edge_labels edges"]
    by simp
qed

lemma build_graph_entries:
  assumes "i < VertexCount (build_graph edges)" "j < VertexCount (build_graph edges)"
  shows "square_matrix (VertexCount (build_graph edges)) (adjacency (build_graph edges)) \<and>
         (Weight (build_graph edges) i j = (if i = j then Fin 0 else PInf) \<or>
          (\<exists>e \<in> set edges. Weight (build_graph edges) i j = weight e \<and>
             ((edge_from e = Label (build_graph edges) i \<and> edge_to e = Label (build_graph edges) j) \<or>
              (edge_from e = Label (build_graph edges) j \<and> edge_to e = Label (build_graph edges) i))))"
proof -
  define L where "L = edge_labels edges"
  define n where "n = length L"
  define a1 where "a1 = foldl (\<lambda>a i. set_entry a i i (Fin 0)) (replicate n (replicate n PInf)) [0..<n]"
  define l2i where "l2i = index_pairs L"
  define a where "a = foldl (store_edge l2i) a1 edges"
  have n: "VertexCount (build_graph edges) = n"
    by (simp add: build_graph_fields VertexCount_def n_def L_def)
  have adj: "adjacency (build_graph edges) = a"
    by (simp add: build_graph_fields a_def a1_def l2i_def n_def L_def)
  have lab: "Label (build_graph edges) k = L ! k" for k
    by (simp add: build_graph_fields Label_def L_def)
  have w: "Weight (build_graph edges) i j = a ! i ! j"
    by (simp add: Weight_def adj)
  have i: "i < n" and j: "j < n" using assms n by simp_all
  from diagonal_fold [OF square_replicate [of n PInf] i j, of "Fin 0" n]
  have sq1: "square_matrix n a1" and d: "a1 ! i ! j = (if i = j then Fin 0 else PInf)"
    using i j by (simp_all add: a1_def)
  have key: "l = L ! k" if "map_of l2i l = Some k" for l k
    using index_pairs_key [of L l k] that by (simp add: l2i_def)
  from store_edges_entry [OF i j sq1, of l2i edges]
  have sq: "square_matrix n a"
    and e: "a ! i ! j = a1 ! i ! j \<or>
            (\<exists>e \<in> set edges. a ! i ! j = weight e \<and>
               ((map_of l2i (edge_from e) = Some i \<and> map_of l2i (edge_to e) = Some j) \<or>
                (map_of l2i (edge_from e) = Some j \<and> map_of l2i (edge_to e) = Some i)))"
    unfolding a_def by blast+
  from e have "a ! i ! j = (if i = j then Fin 0 else PInf) \<or>
            (\<exists>e \<in> set edges. a ! i ! j = weight e \<and>
               ((edge_from e = L ! i \<and> edge_to e = L ! j) \<or>
                (edge_from e = L ! j \<and> edge_to e = L ! i)))"
    unfolding d using key by blast
  then show ?thesis
    unfolding n adj lab w using sq by blast
qed


lemma square_diagonal: "square_matrix n a \<Longrightarrow> square_matrix n (foldl (\<lambda>a i. set_entry a i i v) a xs)"
  by (induction xs arbitrary: a) (simp_all add: square_set_entry)

lemma square_store_edges: "square_matrix n a \<Longrightarrow> square_matrix n (foldl (store_edge l2i) a es)"
  by (induction es arbitrary: a) (simp_all add: store_edge_square)

lemma build_graph_square:
  "square_matrix (VertexCount (build_graph edges)) (adjacency (build_graph edges))"
  unfolding build_graph_fields VertexCount_def
  by (simp add: square_store_edges square_diagonal square_replicate)

lemma build_graph_weight:
  assumes "i < VertexCount (build_graph edges)" "j < VertexCount (build_graph edges)"
    and "list_all (\<lambda>e. isfinite (weight e)) edges"
  shows "(isfinite (Weight (build_graph edges) i j) \<or> Weight (build_graph edges) i j = PInf) \<and>
         (\<not> edge_line_between edges (Label (build_graph edges) i) (Label (build_graph edges) j) \<longrightarrow>
            Weight (build_graph edges) i j = (if i = j then Fin 0 else PInf))"
proof -
  define w where "w = Weight (build_graph edges) i j"
  define li where "li = Label (build_graph edges) i"
  define lj where "lj = Label (build_graph edges) j"
  from build_graph_entries [OF assms(1,2)]
  have "w = (if i = j then Fin 0 else PInf) \<or>
        (\<exists>e \<in> set edges. w = weight e \<and>
           ((edge_from e = li \<and> edge_to e = lj) \<or> (edge_from e = lj \<and> edge_to e = li)))"
    unfolding w_def li_def lj_def by (rule conjunct2)
  then have "(isfinite w \<or> w = PInf) \<and>
             (\<not> edge_line_between edges li lj \<longrightarrow> w = (if i = j then Fin 0 else PInf))"
  proof
    assume "w = (if i = j then Fin 0 else PInf)"
    then show ?thesis by simp
  next
    assume "\<exists>e \<in> set edges. w = weight e \<and>
           ((edge_from e = li \<and> edge_to e = lj) \<or> (edge_from e = lj \<and> edge_to e = li))"
    then obtain e where e: "e \<in> set edges" "w = weight e"
      "(edge_from e = li \<and> edge_to e = lj) \<or> (edge_from e = lj \<and> edge_to e = li)"
      by blast
    from e(1,3) have "edge_line_between edges li lj"
      unfolding edge_line_between_def list_ex_iff by blast
    moreover have "isfinite w" using assms(3) e(1,2) by (simp add: list_all_iff)
    ultimately show ?thesis by blast
  qed
  then show ?thesis unfolding w_def li_def lj_def .
qed

lemma last_weight_Nil: "last_weight [] l l' = None"
  by (simp add: last_weight_def)

lemma last_weight_Cons:
  "last_weight (e # es) l l' =
     (case last_weight es l l' of
        Some w \<Rightarrow> Some w
      | None \<Rightarrow> if edge_covers l l' e then Some (weight e) else None)"
  by (cases "rev (filter (edge_covers l l') es)") (simp_all add: last_weight_def)

lemma store_edge_exact:
  assumes sq: "square_matrix n a" and i: "i < n" and j: "j < n"
    and look: "\<forall>k < n. map_of l2i (L ! k) = Some k"
    and key: "\<forall>l k. map_of l2i l = Some k \<longrightarrow> k < n \<and> L ! k = l"
  shows "store_edge l2i a e ! i ! j =
           (if edge_covers (L ! i) (L ! j) e then weight e else a ! i ! j)"
proof (cases "map_of l2i (edge_from e) = None \<or> map_of l2i (edge_to e) = None")
  case True
  have "\<not> edge_covers (L ! i) (L ! j) e"
  proof
    assume "edge_covers (L ! i) (L ! j) e"
    then have "(edge_from e = L ! i \<or> edge_from e = L ! j) \<and>
               (edge_to e = L ! i \<or> edge_to e = L ! j)"
      unfolding edge_covers_def by blast
    with look i j have "map_of l2i (edge_from e) \<noteq> None \<and> map_of l2i (edge_to e) \<noteq> None"
      by auto
    with True show False by blast
  qed
  then show ?thesis by (simp add: store_edge_None [OF True])
next
  case False
  then obtain fi ti where f: "map_of l2i (edge_from e) = Some fi"
    and t: "map_of l2i (edge_to e) = Some ti" by auto
  from key f have "fi < n \<and> L ! fi = edge_from e" by blast
  then have fl: "edge_from e = L ! fi" and fn: "fi < n" by simp_all
  from key t have "ti < n \<and> L ! ti = edge_to e" by blast
  then have tl: "edge_to e = L ! ti" and tn: "ti < n" by simp_all
  have inj: "L ! x = L ! y \<longleftrightarrow> x = y" if "x < n" "y < n" for x y
  proof
    assume "L ! x = L ! y"
    with look that have "Some x = Some y" by metis
    then show "x = y" by simp
  qed simp
  have cov: "edge_covers (L ! i) (L ! j) e \<longleftrightarrow>
               (fi = i \<and> ti = j) \<or> (bidirectional e \<and> fi = j \<and> ti = i)"
    unfolding edge_covers_def fl tl
    using inj [OF fn i] inj [OF fn j] inj [OF tn i] inj [OF tn j] by simp
  let ?a1 = "set_entry a fi ti (weight e)"
  have sq1: "square_matrix n ?a1" by (rule square_set_entry [OF sq])
  have 1: "?a1 ! i ! j = (if i = fi \<and> j = ti then weight e else a ! i ! j)"
    using square_nth [OF sq i] j by (intro set_entry_nth) simp_all
  have 2: "set_entry ?a1 ti fi (weight e) ! i ! j =
             (if i = ti \<and> j = fi then weight e else ?a1 ! i ! j)"
    using square_nth [OF sq1 i] j by (intro set_entry_nth) simp_all
  have r: "store_edge l2i a e ! i ! j =
             (if bidirectional e \<and> i = ti \<and> j = fi then weight e
              else if i = fi \<and> j = ti then weight e else a ! i ! j)"
    unfolding store_edge_Some [OF f t]
    by (cases "bidirectional e") (simp_all only: 1 2 simp_thms if_True if_False)
  consider (rev_dir) "bidirectional e \<and> i = ti \<and> j = fi"
    | (fwd_dir) "\<not> (bidirectional e \<and> i = ti \<and> j = fi)" "i = fi \<and> j = ti"
    | (untouched) "\<not> (bidirectional e \<and> i = ti \<and> j = fi)" "\<not> (i = fi \<and> j = ti)"
    by blast
  then show ?thesis
  proof cases
    case rev_dir
    then have "store_edge l2i a e ! i ! j = weight e" unfolding r by simp
    moreover from rev_dir have "edge_covers (L ! i) (L ! j) e" unfolding cov by blast
    ultimately show ?thesis by simp
  next
    case fwd_dir
    then have "store_edge l2i a e ! i ! j = weight e" unfolding r by simp
    moreover from fwd_dir have "edge_covers (L ! i) (L ! j) e" unfolding cov by blast
    ultimately show ?thesis by simp
  next
    case untouched
    then have "store_edge l2i a e ! i ! j = a ! i ! j" unfolding r by (simp only: if_False)
    moreover from untouched have "\<not> edge_covers (L ! i) (L ! j) e" unfolding cov by blast
    ultimately show ?thesis by simp
  qed
qed

lemma store_edges_exact:
  assumes i: "i < n" and j: "j < n"
    and look: "\<forall>k < n. map_of l2i (L ! k) = Some k"
    and key: "\<forall>l k. map_of l2i l = Some k \<longrightarrow> k < n \<and> L ! k = l"
  shows "square_matrix n a \<Longrightarrow>
         foldl (store_edge l2i) a es ! i ! j =
           (case last_weight es (L ! i) (L ! j) of None \<Rightarrow> a ! i ! j | Some w \<Rightarrow> w)"
proof (induction es arbitrary: a)
  case Nil
  then show ?case by (simp add: last_weight_Nil)
next
  case (Cons e es)
  let ?a = "store_edge l2i a e"
  have sq: "square_matrix n ?a" by (rule store_edge_square [OF Cons.prems])
  note ih = Cons.IH [OF sq]
  note st = store_edge_exact [OF Cons.prems i j look key, of e]
  show ?case
    unfolding foldl_Cons ih st last_weight_Cons
    by (cases "last_weight es (L ! i) (L ! j)") simp_all
qed

lemma build_graph_last_weight:
  assumes "i < VertexCount (build_graph edges)" "j < VertexCount (build_graph edges)"
  shows "Weight (build_graph edges) i j =
           (case last_weight edges (Label (build_graph edges) i) (Label (build_graph edges) j) of
              None \<Rightarrow> if i = j then Fin 0 else PInf
            | Some w \<Rightarrow> w)"
proof -
  define L where "L = edge_labels edges"
  define n where "n = length L"
  define a1 where "a1 = foldl (\<lambda>a i. set_entry a i i (Fin 0)) (replicate n (replicate n PInf)) [0..<n]"
  define l2i where "l2i = index_pairs L"
  define a where "a = foldl (store_edge l2i) a1 edges"
  have n: "VertexCount (build_graph edges) = n"
    by (simp add: build_graph_fields VertexCount_def n_def L_def)
  have adj: "adjacency (build_graph edges) = a"
    by (simp add: build_graph_fields a_def a1_def l2i_def n_def L_def)
  have lab: "Label (build_graph edges) k = L ! k" for k
    by (simp add: build_graph_fields Label_def L_def)
  have w: "Weight (build_graph edges) i j = a ! i ! j"
    by (simp add: Weight_def adj)
  have i: "i < n" and j: "j < n" using assms n by simp_all
  from diagonal_fold [OF square_replicate [of n PInf] i j, of "Fin 0" n]
  have sq1: "square_matrix n a1" and d: "a1 ! i ! j = (if i = j then Fin 0 else PInf)"
    using i j by (simp_all add: a1_def)
  have dl: "distinct L" by (simp add: L_def edge_labels_def)
  have look: "\<forall>k < n. map_of l2i (L ! k) = Some k"
    using index_pairs_lookup [OF dl] by (simp add: l2i_def n_def)
  have key: "\<forall>l k. map_of l2i l = Some k \<longrightarrow> k < n \<and> L ! k = l"
    using index_pairs_key [of L] by (simp add: l2i_def n_def)
  show ?thesis
    unfolding w lab a_def store_edges_exact [OF i j look key sq1] d ..
qed


lemma read_edges_line_edges: "read_edges lines = Inr edges \<Longrightarrow> edges = line_edges lines"
proof (induction lines arbitrary: edges)
  case Nil
  then show ?case by (simp add: line_edges_def)
next
  case (Cons line lines)
  from Cons.prems obtain e es where e: "ParseEdgeLine line = Inr e"
    and es: "read_edges lines = Inr es"
    and r: "edges = (if edge_from e = [] \<or> edge_to e = [] then es else e # es)"
    by (auto split: sum.splits if_splits)
  from Cons.IH [OF es] have "es = line_edges lines" .
  then show ?case unfolding r by (simp add: line_edges_def e)
qed

text \<open>
  Claim C3, as the code has it. For the graph built from the edges read from a stream:
  \<^verbatim>\<open>label_to_index_\<close> is the inverse of \<^verbatim>\<open>index_to_label_\<close>, the labels are sorted and pairwise
  different, the matrix is square, every weight is finite or \<open>+\<infinity>\<close>, and where no edge line
  joins the labels of \<open>i\<close> and \<open>j\<close> the weight is 0 on the diagonal and \<open>+\<infinity>\<close> off it. So
  \<open>weight[i][i] = 0\<close> for every \<open>i\<close> whose label has no self-loop line. The edges are those
  of the lines, in their order, and off the diagonal the weight from \<open>i\<close> to \<open>j\<close> is the
  weight, as parsed and also when negative, of the last edge that goes from the label of
  \<open>i\<close> to the label of \<open>j\<close> or joins them with \<^verbatim>\<open>--\<close>, and \<open>+\<infinity>\<close> when there is none.
\<close>

theorem parsed_graph_invariants:
  assumes "read_edges (getlines input) = Inr edges" and "g = build_graph edges"
  shows "FromGraphviz input = Inr g \<and> label_index_inverse g \<and>
         distinct (index_to_label g) \<and> sorted (index_to_label g) \<and>
         square_matrix (VertexCount g) (adjacency g) \<and>
         (\<forall>i < VertexCount g. \<forall>j < VertexCount g.
            (isfinite (Weight g i j) \<or> Weight g i j = PInf) \<and>
            (\<not> edge_line_between edges (Label g i) (Label g j) \<longrightarrow>
               Weight g i j = (if i = j then Fin 0 else PInf))) \<and>
         edges = line_edges (getlines input) \<and>
         (\<forall>i < VertexCount g. \<forall>j < VertexCount g. i \<noteq> j \<longrightarrow>
            Weight g i j =
              (case last_weight edges (Label g i) (Label g j) of
                 None \<Rightarrow> PInf
               | Some w \<Rightarrow> w))"
proof (intro conjI allI impI)
  show "FromGraphviz input = Inr g"
    by (simp add: FromGraphviz_def assms)
  show "label_index_inverse g" unfolding assms(2) by (rule label_index_inverse_build)
  show "distinct (index_to_label g)" "sorted (index_to_label g)"
    by (simp_all add: assms(2) build_graph_fields edge_labels_def)
  show "square_matrix (VertexCount g) (adjacency g)"
    unfolding assms(2) by (rule build_graph_square)
  show "edges = line_edges (getlines input)"
    by (rule read_edges_line_edges [OF assms(1)])
next
  fix i j assume "i < VertexCount g" "j < VertexCount g"
  then have ij: "i < VertexCount (build_graph edges)" "j < VertexCount (build_graph edges)"
    by (simp_all add: assms(2))
  note w = build_graph_weight [OF ij read_edges_finite [OF assms(1)], folded assms(2)]
  from w show "isfinite (Weight g i j) \<or> Weight g i j = PInf" by (rule conjunct1)
  assume "\<not> edge_line_between edges (Label g i) (Label g j)"
  with w show "Weight g i j = (if i = j then Fin 0 else PInf)" by (elim conjE impE)
next
  fix i j assume "i < VertexCount g" "j < VertexCount g" and ne: "i \<noteq> j"
  then have ij: "i < VertexCount (build_graph edges)" "j < VertexCount (build_graph edges)"
    by (simp_all add: assms(2))
  from build_graph_last_weight [OF ij, folded assms(2)] ne
  show "Weight g i j =
          (case last_weight edges (Label g i) (Label g j) of None \<Rightarrow> PInf | Some w \<Rightarrow> w)"
    by simp
qed

lemma read_edges_one_way:
  "read_edges (getlines ''A -> B [w=2]'') =
     Inr [\<lparr>edge_from = ''A'', edge_to = ''B'', weight = Fin 2, bidirectional = False\<rparr>]"
  by (simp add: parse_defs getlines_def)

lemma build_graph_one_way:
  "one_way_graph =
     build_graph [\<lparr>edge_from = ''A'', edge_to = ''B'', weight = Fin 2, bidirectional = False\<rparr>]"
  by (simp add: graph_defs one_way_graph_def Let_def)

theorem parsed_graph_invariants_witness:
  "FromGraphviz ''A -> B [w=2]'' = Inr one_way_graph \<and> label_index_inverse one_way_graph \<and>
   distinct (index_to_label one_way_graph) \<and> sorted (index_to_label one_way_graph) \<and>
   square_matrix (VertexCount one_way_graph) (adjacency one_way_graph) \<and>
   isfinite (Weight one_way_graph 0 1) \<and> Weight one_way_graph 0 0 = Fin 0 \<and>
   Weight one_way_graph 1 1 = Fin 0 \<and>
   line_edges (getlines ''A -> B [w=2]'') =
     [\<lparr>edge_from = ''A'', edge_to = ''B'', weight = Fin 2, bidirectional = False\<rparr>] \<and>
   Weight one_way_graph 0 1 = Fin 2 \<and> Weight one_way_graph 1 0 = PInf"
proof -
  note t = parsed_graph_invariants [OF read_edges_one_way build_graph_one_way]
  have v: "(0 :: nat) < VertexCount one_way_graph" "1 < VertexCount one_way_graph"
    by (simp_all add: VertexCount_def one_way_graph_def)
  have n: "\<not> edge_line_between
       [\<lparr>edge_from = ''A'', edge_to = ''B'', weight = Fin 2, bidirectional = False\<rparr>]
       (Label one_way_graph 0) (Label one_way_graph 0)"
    "\<not> edge_line_between
       [\<lparr>edge_from = ''A'', edge_to = ''B'', weight = Fin 2, bidirectional = False\<rparr>]
       (Label one_way_graph 1) (Label one_way_graph 1)"
    by (simp_all add: edge_line_between_def Label_def one_way_graph_def)
  have lw: "last_weight
       [\<lparr>edge_from = ''A'', edge_to = ''B'', weight = Fin 2, bidirectional = False\<rparr>]
       (Label one_way_graph 0) (Label one_way_graph 1) = Some (Fin 2)"
    "last_weight
       [\<lparr>edge_from = ''A'', edge_to = ''B'', weight = Fin 2, bidirectional = False\<rparr>]
       (Label one_way_graph 1) (Label one_way_graph 0) = None"
    by (simp_all add: last_weight_def edge_covers_def Label_def one_way_graph_def)
  from t have t6: "\<forall>i < VertexCount one_way_graph. \<forall>j < VertexCount one_way_graph.
      (isfinite (Weight one_way_graph i j) \<or> Weight one_way_graph i j = PInf) \<and>
      (\<not> edge_line_between
           [\<lparr>edge_from = ''A'', edge_to = ''B'', weight = Fin 2, bidirectional = False\<rparr>]
           (Label one_way_graph i) (Label one_way_graph j) \<longrightarrow>
         Weight one_way_graph i j = (if i = j then Fin 0 else PInf))"
    by (elim conjE)
  from t have t8: "\<forall>i < VertexCount one_way_graph. \<forall>j < VertexCount one_way_graph. i \<noteq> j \<longrightarrow>
      Weight one_way_graph i j =
        (case last_weight
           [\<lparr>edge_from = ''A'', edge_to = ''B'', weight = Fin 2, bidirectional = False\<rparr>]
           (Label one_way_graph i) (Label one_way_graph j) of
           None \<Rightarrow> PInf
         | Some w \<Rightarrow> w)"
    by (elim conjE)
  from t have t7: "[\<lparr>edge_from = ''A'', edge_to = ''B'', weight = Fin 2, bidirectional = False\<rparr>] =
      line_edges (getlines ''A -> B [w=2]'')"
    by (elim conjE)
  from t6 v n(1) have w00: "Weight one_way_graph 0 0 = Fin 0" by fastforce
  from t6 v n(2) have w11: "Weight one_way_graph 1 1 = Fin 0" by fastforce
  from t8 v have "Weight one_way_graph 0 1 =
        (case last_weight
           [\<lparr>edge_from = ''A'', edge_to = ''B'', weight = Fin 2, bidirectional = False\<rparr>]
           (Label one_way_graph 0) (Label one_way_graph 1) of
           None \<Rightarrow> PInf
         | Some w \<Rightarrow> w)"
    by fastforce
  then have w01: "Weight one_way_graph 0 1 = Fin 2" unfolding lw by simp
  from t8 v have "Weight one_way_graph 1 0 =
        (case last_weight
           [\<lparr>edge_from = ''A'', edge_to = ''B'', weight = Fin 2, bidirectional = False\<rparr>]
           (Label one_way_graph 1) (Label one_way_graph 0) of
           None \<Rightarrow> PInf
         | Some w \<Rightarrow> w)"
    by fastforce
  then have w10: "Weight one_way_graph 1 0 = PInf" unfolding lw by simp
  have f01: "isfinite (Weight one_way_graph 0 1)" unfolding w01 by simp
  from t w00 w11 f01 w01 w10 t7 [symmetric] show ?thesis by (elim conjE) (intro conjI)
qed

lemma FromGraphviz_self_neg:
  "FromGraphviz ''A -> A [w=5]\<newline>A -> B [w=-2]'' = Inr self_neg_graph"
  by (simp add: parse_defs graph_defs self_neg_graph_def)

text \<open>
  A self-loop line overwrites the zero of the diagonal, and a negative weight is stored.
\<close>

theorem parsed_weights_counterexample:
  "FromGraphviz ''A -> A [w=5]\<newline>A -> B [w=-2]'' = Inr self_neg_graph \<and>
   Weight self_neg_graph 0 0 = Fin 5 \<and> Weight self_neg_graph 0 1 = Fin (- 2) \<and>
   dless (Weight self_neg_graph 0 1) (Fin 0)"
  unfolding FromGraphviz_self_neg by (simp add: Weight_def self_neg_graph_def)

section \<open>The weight attribute of an edge line\<close>

lemma search_flow:
  "search_weight ''[x=1, flow=3]'' = Some ''3''" "search_number ''[x=1, flow=3]'' = Some ''1''"
  by (simp_all add: parse_defs)

lemma search_flop:
  "search_weight ''[x=1, flop=3]'' = None" "search_number ''[x=1, flop=3]'' = Some ''1''"
  by (simp_all add: parse_defs)

text \<open>
  Claim C9 at an input where it fails. The pattern of the weight attribute is searched in
  the attribute text with nothing that ties the key to the start of an attribute name, so
  the key \<^verbatim>\<open>w\<close> matches at the end of \<^verbatim>\<open>flow\<close>. On the line \<^verbatim>\<open>A -> B [x=1, flow=3]\<close> no
  attribute has the key \<^verbatim>\<open>weight\<close>, \<^verbatim>\<open>label\<close> or \<^verbatim>\<open>w\<close> and the first numeric literal of the
  block is 1, but the weight is 3. With the key \<^verbatim>\<open>flop\<close> in place of \<^verbatim>\<open>flow\<close> the weight is
  1, and with the key \<^verbatim>\<open>w\<close> it is 3.
\<close>

theorem key_suffix_sets_weight:
  "ParseEdgeLine ''A -> B [x=1, flow=3]'' =
     Inr \<lparr>edge_from = ''A'', edge_to = ''B'', weight = Fin 3, bidirectional = False\<rparr> \<and>
   search_weight ''[x=1, flow=3]'' = Some ''3'' \<and>
   search_number ''[x=1, flow=3]'' = Some ''1'' \<and>
   FromGraphviz ''A -> B [x=1, flow=3]'' = Inr flow_graph \<and> Weight flow_graph 0 1 = Fin 3 \<and>
   ParseEdgeLine ''A -> B [x=1, flop=3]'' =
     Inr \<lparr>edge_from = ''A'', edge_to = ''B'', weight = Fin 1, bidirectional = False\<rparr> \<and>
   ParseEdgeLine ''A -> B [x=1, w=3]'' =
     Inr \<lparr>edge_from = ''A'', edge_to = ''B'', weight = Fin 3, bidirectional = False\<rparr>"
  by (simp add: parse_defs graph_defs flow_graph_def Weight_def)
section \<open>The walk selected by CanonicalizeTour\<close>

lemma walk_forward_rotate: "walk_forward c s = rotate s c"
proof (cases "c = []")
  case True
  then show ?thesis by (simp add: walk_forward_def)
next
  case False
  show ?thesis
    by (rule nth_equalityI) (simp_all add: walk_forward_def nth_rotate)
qed

lemma walk_backward_from_nth:
  assumes "idx < length c" "k \<le> length c" "i < k"
  shows "walk_backward_from c idx k ! i = c ! ((idx + length c - i) mod length c)"
  using assms
proof (induction k arbitrary: idx i)
  case 0
  then show ?case by simp
next
  case (Suc k)
  show ?case
  proof (cases i)
    case 0
    then show ?thesis using Suc.prems by simp
  next
    case (Suc j)
    let ?n = "length c"
    let ?idx' = "if idx = 0 then ?n - 1 else idx - 1"
    have "?idx' < ?n" using Suc.prems by auto
    moreover have "k \<le> ?n" "j < k" using Suc.prems Suc by auto
    ultimately have "walk_backward_from c ?idx' k ! j = c ! ((?idx' + ?n - j) mod ?n)"
      by (rule Suc.IH)
    moreover have "(?idx' + ?n - j) mod ?n = (idx + ?n - Suc j) mod ?n"
    proof (cases "idx = 0")
      case True
      have "?n - 1 + ?n - j = (?n - Suc j) + ?n" using \<open>j < k\<close> \<open>k \<le> ?n\<close> Suc.prems by auto
      then show ?thesis using True by simp
    next
      case False
      then show ?thesis by simp
    qed
    ultimately show ?thesis using Suc by simp
  qed
qed

lemma length_walk_backward_from [simp]: "length (walk_backward_from c idx k) = k"
  by (induction k arbitrary: idx) simp_all

lemma walk_backward_rotate: "walk_backward c s = rev (rotate (Suc s) c)"
proof (cases "c = []")
  case True
  then show ?thesis by (simp add: walk_backward_def)
next
  case False
  let ?n = "length c"
  have n: "0 < ?n" using False by simp
  show ?thesis
  proof (rule nth_equalityI)
    show "length (walk_backward c s) = length (rev (rotate (Suc s) c))"
      by (simp add: walk_backward_def)
  next
    fix i assume "i < length (walk_backward c s)"
    then have i: "i < ?n" by (simp add: walk_backward_def)
    have "walk_backward c s ! i = c ! ((s mod ?n + ?n - i) mod ?n)"
      unfolding walk_backward_def
      by (rule walk_backward_from_nth) (use n i in simp_all)
    moreover have "rev (rotate (Suc s) c) ! i = c ! ((Suc s + (?n - Suc i)) mod ?n)"
      using i by (simp add: rev_nth nth_rotate del: rotate_Suc)
    moreover have "(s mod ?n + ?n - i) mod ?n = (Suc s + (?n - Suc i)) mod ?n"
    proof -
      have "Suc s + (?n - Suc i) = s + (?n - i)" using i by simp
      moreover have "s mod ?n + ?n - i = s mod ?n + (?n - i)" using i by simp
      moreover have "(s mod ?n + (?n - i)) mod ?n = (s + (?n - i)) mod ?n"
        by (rule mod_add_left_eq)
      ultimately show ?thesis by (simp only:)
    qed
    ultimately show "walk_backward c s ! i = rev (rotate (Suc s) c) ! i" by simp
  qed
qed


lemma walk_in_walks: "walk c s r \<in> walks c"
  by (auto simp: walk_def walks_def walk_forward_rotate walk_backward_rotate simp del: rotate_Suc)

lemma build_key_tour_key: "build_key g c s r = tour_key g (walk c s r)"
  by (simp add: build_key_def tour_key_def)

lemma walks_cover:
  assumes "w \<in> walks c"
  shows "\<exists>s < max 1 (length c). \<exists>r. w = walk c s r"
proof (cases "c = []")
  case True
  with assms show ?thesis by (auto simp: walks_def walk_def walk_forward_rotate)
next
  case False
  let ?n = "length c"
  have n: "0 < ?n" using False by simp
  from assms obtain s where "w = rotate s c \<or> w = rev (rotate s c)" by (auto simp: walks_def)
  then show ?thesis
  proof
    assume "w = rotate s c"
    then have "w = walk c (s mod ?n) False"
      by (simp add: walk_def walk_forward_rotate rotate_conv_mod [symmetric])
    moreover have "s mod ?n < max 1 ?n" using n by (simp add: less_max_iff_disj)
    ultimately show ?thesis by blast
  next
    assume w: "w = rev (rotate s c)"
    have "rotate s c = rotate (Suc ((s + ?n - 1) mod ?n)) c"
    proof -
      have e: "Suc (s + ?n - 1) = s + ?n" using n by simp
      have "Suc ((s + ?n - 1) mod ?n) mod ?n = Suc (s + ?n - 1) mod ?n" by (rule mod_Suc_eq)
      also have "\<dots> = s mod ?n" unfolding e by simp
      finally have "rotate (Suc ((s + ?n - 1) mod ?n) mod ?n) c = rotate (s mod ?n) c"
        by (simp only:)
      then show ?thesis
        unfolding rotate_conv_mod [symmetric] by (rule sym)
    qed
    with w have "w = walk c ((s + ?n - 1) mod ?n) True"
      by (simp add: walk_def walk_backward_rotate del: rotate_Suc)
    moreover have "(s + ?n - 1) mod ?n < max 1 ?n" using n by (simp add: less_max_iff_disj)
    ultimately show ?thesis by blast
  qed
qed

lemma scan_step_props:
  assumes "fst st = build_key g c (fst (snd st)) (snd (snd st))"
  shows "fst (scan_step g c st x) =
           build_key g c (fst (snd (scan_step g c st x))) (snd (snd (scan_step g c st x))) \<and>
         fst (scan_step g c st x) \<le> fst st \<and>
         fst (scan_step g c st x) \<le> build_key g c x False \<and>
         fst (scan_step g c st x) \<le> build_key g c x True"
  using assms by (auto simp: scan_step_def Let_def)

lemma scan_fold_props:
  assumes "fst st = build_key g c (fst (snd st)) (snd (snd st))"
  shows "fst (foldl (scan_step g c) st xs) =
           build_key g c (fst (snd (foldl (scan_step g c) st xs)))
             (snd (snd (foldl (scan_step g c) st xs))) \<and>
         fst (foldl (scan_step g c) st xs) \<le> fst st \<and>
         (\<forall>x \<in> set xs. \<forall>r. fst (foldl (scan_step g c) st xs) \<le> build_key g c x r)"
  using assms
proof (induction xs arbitrary: st)
  case Nil
  then show ?case by simp
next
  case (Cons x xs)
  let ?st = "scan_step g c st x"
  note p = scan_step_props [OF Cons.prems, of x]
  note ih = Cons.IH [of ?st, OF conjunct1 [OF p]]
  have le: "fst (foldl (scan_step g c) ?st xs) \<le> fst ?st" using ih by blast
  from p have a: "fst ?st \<le> build_key g c x False" and b: "fst ?st \<le> build_key g c x True"
    and c: "fst ?st \<le> fst st"
    by blast+
  show ?case
    unfolding foldl_Cons
  proof (intro conjI ballI allI)
    show "fst (foldl (scan_step g c) ?st xs) =
            build_key g c (fst (snd (foldl (scan_step g c) ?st xs)))
              (snd (snd (foldl (scan_step g c) ?st xs)))"
      using ih by blast
    show "fst (foldl (scan_step g c) ?st xs) \<le> fst st"
      by (rule order_trans [OF le c])
    fix y r assume "y \<in> set (x # xs)"
    then consider "y = x" | "y \<in> set xs" by auto
    then show "fst (foldl (scan_step g c) ?st xs) \<le> build_key g c y r"
    proof cases
      case 1
      show ?thesis
        unfolding 1 using order_trans [OF le a] order_trans [OF le b] by (cases r) simp_all
    next
      case 2
      then show ?thesis using ih by blast
    qed
  qed
qed

lemma canon_walk_min:
  "canon_walk g c \<in> walks c \<and> (\<forall>w \<in> walks c. tour_key g (canon_walk g c) \<le> tour_key g w)"
proof -
  let ?st0 = "(build_key g c 0 False, 0 :: nat, False)"
  obtain bk bs br where sc: "scan_shifts g c = (bk, bs, br)" by (cases "scan_shifts g c")
  have p: "bk = build_key g c bs br \<and> bk \<le> build_key g c 0 False \<and>
           (\<forall>x \<in> set [0..<length c]. \<forall>r. bk \<le> build_key g c x r)"
  proof -
    have f: "foldl (scan_step g c) ?st0 [0..<length c] = (bk, bs, br)"
      using sc by (simp add: scan_shifts_def)
    have "fst ?st0 = build_key g c (fst (snd ?st0)) (snd (snd ?st0))" by simp
    from scan_fold_props [OF this, of "[0..<length c]"] show ?thesis
      unfolding f fst_conv snd_conv .
  qed
  from p have p1: "bk = build_key g c bs br" by (rule conjunct1)
  from p have p2: "bk \<le> build_key g c 0 False" by (rule conjunct1 [OF conjunct2])
  from p have "\<forall>x \<in> set [0..<length c]. \<forall>r. bk \<le> build_key g c x r"
    by (rule conjunct2 [OF conjunct2])
  then have p3: "\<And>x r. x < length c \<Longrightarrow> bk \<le> build_key g c x r"
    by simp
  have cw: "canon_walk g c = walk c bs br" by (simp add: canon_walk_def sc)
  have key: "tour_key g (canon_walk g c) = bk"
    unfolding cw p1 by (rule build_key_tour_key [symmetric])
  have "tour_key g (canon_walk g c) \<le> tour_key g w" if "w \<in> walks c" for w
  proof -
    from walks_cover [OF that] obtain s r where s: "s < max 1 (length c)" and w: "w = walk c s r"
      by blast
    show ?thesis
    proof (cases "s < length c")
      case True
      from p3 [OF True, of r] show ?thesis
        unfolding key w build_key_tour_key .
    next
      case False
      from False s have c: "c = []" by (cases c) auto
      with s have s0: "s = 0" by simp
      have "walk c s r = walk c 0 False"
        unfolding s0 c by (simp add: walk_def walk_forward_def walk_backward_def)
      with p2 show ?thesis
        unfolding key w build_key_tour_key by simp
    qed
  qed
  moreover have "canon_walk g c \<in> walks c" unfolding cw by (rule walk_in_walks)
  ultimately show ?thesis by blast
qed

lemma CanonicalizeTour_long:
  assumes "2 \<le> length t"
  shows "CanonicalizeTour g t = canon_walk g (cycle_of t) @ [hd (canon_walk g (cycle_of t))]"
proof -
  have "cycle_of t \<noteq> []" using assms by (cases t) (auto simp: cycle_of_def)
  then show ?thesis
    using assms by (simp add: CanonicalizeTour_def cycle_of_def canon_walk_def Let_def split: prod.splits)
qed


lemma rotate_back:
  assumes "c \<noteq> []"
  shows "rotate (s + k * (length c - 1)) (rotate k c) = rotate s c"
proof -
  let ?n = "length c"
  have n: "0 < ?n" using assms by simp
  have e: "s + k * (?n - 1) + k = s + k * ?n"
    using n by (cases ?n) simp_all
  have "rotate (s + k * (?n - 1)) (rotate k c) = rotate (s + k * ?n) c"
    unfolding rotate_rotate e ..
  also have "\<dots> = rotate ((s + k * ?n) mod ?n) c" by (rule rotate_conv_mod)
  also have "(s + k * ?n) mod ?n = s mod ?n" by simp
  also have "rotate (s mod ?n) c = rotate s c" by (rule rotate_conv_mod [symmetric])
  finally show ?thesis .
qed

lemma walks_rotate: "walks (rotate k c) = walks c"
proof (cases "c = []")
  case True
  then show ?thesis by (simp add: walks_def)
next
  case False
  show ?thesis
  proof (rule set_eqI)
    fix w
    show "w \<in> walks (rotate k c) \<longleftrightarrow> w \<in> walks c"
    proof
      assume "w \<in> walks (rotate k c)"
      then obtain s where "w = rotate s (rotate k c) \<or> w = rev (rotate s (rotate k c))"
        unfolding walks_def by blast
      then have "w = rotate (s + k) c \<or> w = rev (rotate (s + k) c)"
        unfolding rotate_rotate .
      then show "w \<in> walks c" unfolding walks_def by blast
    next
      assume "w \<in> walks c"
      then obtain s where "w = rotate s c \<or> w = rev (rotate s c)"
        unfolding walks_def by blast
      then have "w = rotate (s + k * (length c - 1)) (rotate k c) \<or>
                 w = rev (rotate (s + k * (length c - 1)) (rotate k c))"
        unfolding rotate_back [OF False] .
      then show "w \<in> walks (rotate k c)" unfolding walks_def by blast
    qed
  qed
qed

lemma walks_rev_subset: "walks (rev c) \<subseteq> walks c"
proof
  fix w assume "w \<in> walks (rev c)"
  then obtain s where "w = rotate s (rev c) \<or> w = rev (rotate s (rev c))"
    unfolding walks_def by blast
  then have "w = rev (rotate (length c - s mod length c) c) \<or>
             w = rotate (length c - s mod length c) c"
    unfolding rotate_rev rev_rev_ident .
  then show "w \<in> walks c" unfolding walks_def by blast
qed

lemma walks_rev: "walks (rev c) = walks c"
proof
  show "walks (rev c) \<subseteq> walks c" by (rule walks_rev_subset)
  show "walks c \<subseteq> walks (rev c)" using walks_rev_subset [of "rev c"] by simp
qed

lemma walks_closed:
  assumes "w \<in> walks c"
  shows "walks w = walks c"
proof -
  from assms obtain s where "w = rotate s c \<or> w = rev (rotate s c)"
    unfolding walks_def by blast
  then show ?thesis
  proof
    assume "w = rotate s c"
    then show ?thesis by (simp only: walks_rotate)
  next
    assume "w = rev (rotate s c)"
    then show ?thesis by (simp only: walks_rev walks_rotate)
  qed
qed

lemma walks_self: "c \<in> walks c"
  unfolding walks_def by (metis (mono_tags, lifting) mem_Collect_eq rotate0 id_apply)

lemma walks_props:
  assumes "w \<in> walks c"
  shows "length w = length c" and "set w = set c" and "distinct w = distinct c"
  using assms unfolding walks_def by auto


lemma canon_walk_unique:
  assumes "inj_on (tour_key g) (walks c)" and "walks c' = walks c"
  shows "canon_walk g c' = canon_walk g c"
proof -
  note m = canon_walk_min [of g c] and m' = canon_walk_min [of g c']
  from m have i: "canon_walk g c \<in> walks c" by (rule conjunct1)
  from m' have i': "canon_walk g c' \<in> walks c" unfolding assms(2) by (rule conjunct1)
  from m i' have "tour_key g (canon_walk g c) \<le> tour_key g (canon_walk g c')" by blast
  moreover from m' i have "tour_key g (canon_walk g c') \<le> tour_key g (canon_walk g c)"
    unfolding assms(2) by blast
  ultimately have "tour_key g (canon_walk g c') = tour_key g (canon_walk g c)" by (rule antisym [rotated])
  from inj_onD [OF assms(1) this i' i] show ?thesis .
qed

lemma scan_fold_stay:
  assumes "\<forall>x \<in> set xs. \<forall>r. \<not> build_key g c x r < k0"
  shows "foldl (scan_step g c) (k0, s0, r0) xs = (k0, s0, r0)"
  using assms by (induction xs) (simp_all add: scan_step_def Let_def)

lemma canon_walk_fix: "canon_walk g (canon_walk g c) = canon_walk g c"
proof -
  let ?w = "canon_walk g c"
  note m = canon_walk_min [of g c]
  from m have i: "?w \<in> walks c" by (rule conjunct1)
  have k0: "build_key g ?w 0 False = tour_key g ?w"
    by (simp add: build_key_tour_key walk_def walk_forward_rotate)
  have "\<not> build_key g ?w x r < tour_key g ?w" for x r
  proof -
    have "walk ?w x r \<in> walks c" using walk_in_walks [of ?w x r] walks_closed [OF i] by simp
    with m have "tour_key g ?w \<le> tour_key g (walk ?w x r)" by blast
    then show ?thesis unfolding build_key_tour_key by (simp add: not_less)
  qed
  then have "scan_shifts g ?w = (tour_key g ?w, 0, False)"
    unfolding scan_shifts_def k0 by (intro scan_fold_stay) blast
  then show ?thesis
    by (simp add: canon_walk_def [of g ?w] walk_def walk_forward_rotate)
qed

lemma foldl_key_append:
  "key \<noteq> [] \<Longrightarrow>
   foldl (key_append g) key vs = key @ concat (map (\<lambda>u. CHR ''>'' # Label g u) vs)"
  by (induction vs arbitrary: key) (simp_all add: key_append_def)

lemma tour_key_join:
  assumes "w = [] \<or> Label g (hd w) \<noteq> []"
  shows "tour_key g w = join_labels (map (Label g) w)"
proof (cases w)
  case Nil
  then show ?thesis by (simp add: tour_key_def)
next
  case (Cons v vs)
  with assms have "key_append g [] v \<noteq> []" "key_append g [] v = Label g v"
    by (simp_all add: key_append_def)
  then show ?thesis
    using foldl_key_append [of "key_append g [] v" g vs]
    by (simp add: tour_key_def Cons comp_def)
qed

lemma takeWhile_label:
  assumes "CHR ''>'' \<notin> set l"
  shows "takeWhile (\<lambda>c. c \<noteq> CHR ''>'') (l @ concat (map ((#) CHR ''>'') ls)) = l"
proof (cases ls)
  case Nil
  with assms show ?thesis by (simp add: takeWhile_eq_all_conv) metis
next
  case (Cons a as)
  have "takeWhile (\<lambda>c. c \<noteq> CHR ''>'') (l @ CHR ''>'' # (a @ concat (map ((#) CHR ''>'') as))) =
          takeWhile (\<lambda>c. c \<noteq> CHR ''>'') l"
    by (rule takeWhile_tail) simp
  also have "\<dots> = l" using assms by (simp add: takeWhile_eq_all_conv) metis
  finally show ?thesis by (simp add: Cons)
qed

lemma join_labels_inj:
  assumes "\<forall>l \<in> set ls \<union> set ls'. CHR ''>'' \<notin> set l"
    and "join_labels ls = join_labels ls'" and "ls \<noteq> []" and "ls' \<noteq> []"
  shows "ls = ls'"
  using assms
proof (induction ls arbitrary: ls')
  case Nil
  then show ?case by simp
next
  case (Cons l ls)
  from Cons.prems(4) obtain l' ls2 where ls': "ls' = l' # ls2" by (cases ls') auto
  have l: "CHR ''>'' \<notin> set l" and l': "CHR ''>'' \<notin> set l'"
    using Cons.prems(1) ls' by auto
  have e: "l @ concat (map ((#) CHR ''>'') ls) = l' @ concat (map ((#) CHR ''>'') ls2)"
    using Cons.prems(2) ls' by simp
  have ll: "l = l'"
    using takeWhile_label [OF l, of ls] takeWhile_label [OF l', of ls2] e by simp
  with e have r: "concat (map ((#) CHR ''>'') ls) = concat (map ((#) CHR ''>'') ls2)" by simp
  show ?case
  proof (cases ls)
    case Nil
    with r have "ls2 = []" by (cases ls2) auto
    with Nil ll ls' show ?thesis by simp
  next
    case (Cons a as)
    with r obtain b bs where ls2: "ls2 = b # bs" by (cases ls2) auto
    have "join_labels ls = join_labels ls2" using r Cons ls2 by simp
    moreover have "\<forall>l \<in> set ls \<union> set ls2. CHR ''>'' \<notin> set l"
      using Cons.prems(1) ls' by auto
    ultimately have "ls = ls2"
      using Cons.IH [of ls2] Cons ls2 by simp
    with ll ls' show ?thesis by simp
  qed
qed

lemma tour_key_inj:
  assumes "plain_labels g V" "set w \<subseteq> V" "set w' \<subseteq> V" "length w = length w'"
    and "tour_key g w = tour_key g w'"
  shows "w = w'"
proof (cases "w = []")
  case True
  with assms(4) show ?thesis by simp
next
  case False
  with assms(4) have ne: "w' \<noteq> []" by auto
  from assms(1,2,3) have lab: "\<forall>v \<in> set w \<union> set w'. Label g v \<noteq> [] \<and> CHR ''>'' \<notin> set (Label g v)"
    and inj: "inj_on (Label g) (set w \<union> set w')"
    unfolding plain_labels_def by (auto intro: inj_on_subset)
  have "Label g (hd w) \<noteq> []" "Label g (hd w') \<noteq> []"
    using lab False ne by auto
  then have "join_labels (map (Label g) w) = join_labels (map (Label g) w')"
    using assms(5) tour_key_join [of w g] tour_key_join [of w' g] by simp
  moreover have "\<forall>l \<in> set (map (Label g) w) \<union> set (map (Label g) w'). CHR ''>'' \<notin> set l"
    using lab by auto
  ultimately have "map (Label g) w = map (Label g) w'"
    using False ne by (intro join_labels_inj) simp_all
  with inj show ?thesis by (simp add: inj_on_map_eq_map)
qed

lemma tour_key_inj_on_walks:
  assumes "plain_labels g (set c)"
  shows "inj_on (tour_key g) (walks c)"
proof (rule inj_onI)
  fix w w' assume "w \<in> walks c" "w' \<in> walks c" "tour_key g w = tour_key g w'"
  then show "w = w'"
    using tour_key_inj [OF assms, of w w'] walks_props(1,2) [of w c] walks_props(1,2) [of w' c]
    by simp
qed


lemma canon_walk_not_Nil: "c \<noteq> [] \<Longrightarrow> canon_walk g c \<noteq> []"
  using canon_walk_min [of g c] walks_props(1) [of "canon_walk g c" c] by auto

lemma cycle_of_closed: "w \<noteq> [] \<Longrightarrow> cycle_of (w @ [hd w]) = w"
  by (cases w) (simp_all add: cycle_of_def)

lemma CanonicalizeTour_idem: "CanonicalizeTour g (CanonicalizeTour g t) = CanonicalizeTour g t"
proof (cases "2 \<le> length t")
  case False
  then show ?thesis by (simp add: CanonicalizeTour_def)
next
  case True
  let ?w = "canon_walk g (cycle_of t)"
  have "cycle_of t \<noteq> []" using True by (cases t) (auto simp: cycle_of_def)
  then have w: "?w \<noteq> []" by (rule canon_walk_not_Nil)
  have c: "CanonicalizeTour g t = ?w @ [hd ?w]" by (rule CanonicalizeTour_long [OF True])
  have "2 \<le> length (?w @ [hd ?w])" using w by (cases ?w) simp_all
  then have "CanonicalizeTour g (?w @ [hd ?w]) =
               canon_walk g (cycle_of (?w @ [hd ?w])) @ [hd (canon_walk g (cycle_of (?w @ [hd ?w])))]"
    by (rule CanonicalizeTour_long)
  then show ?thesis
    unfolding c cycle_of_closed [OF w] canon_walk_fix .
qed

lemma cycle_of_distinct:
  assumes "distinct c" "2 \<le> length c"
  shows "cycle_of c = c"
proof -
  have ne: "c \<noteq> []" using assms(2) by auto
  have "0 < length c" "length c - 1 < length c" "0 \<noteq> length c - 1"
    using assms(2) by auto
  with assms(1) have "c ! 0 \<noteq> c ! (length c - 1)"
    by (simp only: nth_eq_iff_index_eq not_False_eq_True)
  then have "hd c \<noteq> last c"
    using ne by (simp add: hd_conv_nth last_conv_nth)
  then show ?thesis by (simp add: cycle_of_def)
qed

lemma CanonicalizeTour_closed:
  assumes "distinct c" "2 \<le> length c"
  shows "CanonicalizeTour g (closed_tour c) = CanonicalizeTour g c"
proof -
  have ne: "c \<noteq> []" using assms(2) by auto
  have "2 \<le> length (closed_tour c)" using assms(2) by (simp add: closed_tour_def)
  then have "CanonicalizeTour g (closed_tour c) = canon_walk g c @ [hd (canon_walk g c)]"
    using CanonicalizeTour_long [of "closed_tour c" g] cycle_of_closed [OF ne]
    by (simp add: closed_tour_def)
  moreover have "CanonicalizeTour g c = canon_walk g c @ [hd (canon_walk g c)]"
    using CanonicalizeTour_long [OF assms(2), of g] cycle_of_distinct [OF assms] by simp
  ultimately show ?thesis by simp
qed

lemma CanonicalizeTour_walks:
  assumes "distinct c" "distinct c'" "length c' = length c" "walks c' = walks c"
    and "plain_labels g (set c)"
  shows "CanonicalizeTour g c' = CanonicalizeTour g c"
proof (cases "2 \<le> length c")
  case False
  then have "length c \<le> 1" by simp
  moreover have "c' \<in> walks c" using walks_self [of c'] assms(4) by simp
  moreover from \<open>length c \<le> 1\<close> have "rev c = c" by (cases c) auto
  ultimately have "c' = c" unfolding walks_def by auto
  then show ?thesis by simp
next
  case True
  then have t': "2 \<le> length c'" using assms(3) by simp
  have "canon_walk g c' = canon_walk g c"
    by (rule canon_walk_unique [OF tour_key_inj_on_walks [OF assms(5)] assms(4)])
  then show ?thesis
    using CanonicalizeTour_long [OF True, of g] CanonicalizeTour_long [OF t', of g]
      cycle_of_distinct [OF assms(1) True] cycle_of_distinct [OF assms(2) t']
    by simp
qed

section \<open>Rotations and reversals of a tour\<close>

text \<open>
  Claim C6, as the code has it. For a non-empty cycle of distinct vertices whose labels are
  plain (different, not empty, without the character \<^verbatim>\<open>>\<close> that separates the labels in a
  key), \<^const>\<open>CanonicalizeTour\<close> gives the same result on every rotation of the cycle and on
  its reversal, in open and in closed form; and \<^const>\<open>CanonicalizeTour\<close> is idempotent.
\<close>

theorem canonical_form_invariant:
  assumes "distinct c" and "c \<noteq> []" and "\<forall>v \<in> set c. v < VertexCount g"
    and "plain_labels g (set c)"
  shows "CanonicalizeTour g (rotate k c) = CanonicalizeTour g c \<and>
         CanonicalizeTour g (rev c) = CanonicalizeTour g c \<and>
         CanonicalizeTour g (closed_tour (rotate k c)) = CanonicalizeTour g (closed_tour c) \<and>
         CanonicalizeTour g (closed_tour (rev c)) = CanonicalizeTour g (closed_tour c) \<and>
         CanonicalizeTour g (CanonicalizeTour g c) = CanonicalizeTour g c \<and>
         CanonicalizeTour g (CanonicalizeTour g (closed_tour c)) = CanonicalizeTour g (closed_tour c)"
proof -
  have r: "CanonicalizeTour g (rotate k c) = CanonicalizeTour g c"
    by (rule CanonicalizeTour_walks [OF assms(1) _ _ walks_rotate assms(4)]) (simp_all add: assms(1))
  have v: "CanonicalizeTour g (rev c) = CanonicalizeTour g c"
    by (rule CanonicalizeTour_walks [OF assms(1) _ _ walks_rev assms(4)]) (simp_all add: assms(1))
  have cr: "CanonicalizeTour g (closed_tour (rotate k c)) = CanonicalizeTour g (closed_tour c)"
  proof (cases "2 \<le> length c")
    case True
    then show ?thesis
      using CanonicalizeTour_closed [of c g] CanonicalizeTour_closed [of "rotate k c" g] r assms(1)
      by simp
  next
    case False
    then have "length c \<le> 1" by simp
    then show ?thesis by simp
  qed
  have cv: "CanonicalizeTour g (closed_tour (rev c)) = CanonicalizeTour g (closed_tour c)"
  proof (cases "2 \<le> length c")
    case True
    then show ?thesis
      using CanonicalizeTour_closed [of c g] CanonicalizeTour_closed [of "rev c" g] v assms(1)
      by simp
  next
    case False
    then have "length c \<le> 1" by simp
    then have "rev c = c" by (cases c) auto
    then show ?thesis by simp
  qed
  show ?thesis
    by (intro conjI r v cr cv CanonicalizeTour_idem)
qed

lemma plain_labels_k4: "plain_labels k4_graph (set [1, 0, 2, 3])"
  by (simp add: plain_labels_def Label_def k4_graph_def)

theorem canonical_form_invariant_witness:
  "CanonicalizeTour k4_graph (rotate 1 [1, 0, 2, 3]) = CanonicalizeTour k4_graph [1, 0, 2, 3] \<and>
   CanonicalizeTour k4_graph (rev [1, 0, 2, 3]) = CanonicalizeTour k4_graph [1, 0, 2, 3] \<and>
   CanonicalizeTour k4_graph (closed_tour (rotate 1 [1, 0, 2, 3])) =
     CanonicalizeTour k4_graph (closed_tour [1, 0, 2, 3]) \<and>
   CanonicalizeTour k4_graph (closed_tour (rev [1, 0, 2, 3])) =
     CanonicalizeTour k4_graph (closed_tour [1, 0, 2, 3]) \<and>
   CanonicalizeTour k4_graph (CanonicalizeTour k4_graph [1, 0, 2, 3]) =
     CanonicalizeTour k4_graph [1, 0, 2, 3] \<and>
   CanonicalizeTour k4_graph (CanonicalizeTour k4_graph (closed_tour [1, 0, 2, 3])) =
     CanonicalizeTour k4_graph (closed_tour [1, 0, 2, 3])"
proof -
  have "distinct [1, 0, 2, 3 :: nat]" "[1, 0, 2, 3 :: nat] \<noteq> []"
    "\<forall>v \<in> set [1, 0, 2, 3]. v < VertexCount k4_graph"
    by (simp_all add: VertexCount_def k4_graph_def)
  from canonical_form_invariant [OF this plain_labels_k4, of 1] show ?thesis .
qed

lemma FromGraphviz_gt: "FromGraphviz ''A -> A>A\<newline>A>A -> B\<newline>B -> A'' = Inr gt_graph"
  by code_simp

text \<open>
  With the labels \<^verbatim>\<open>A\<close>, \<^verbatim>\<open>A>A\<close> and \<^verbatim>\<open>B\<close> the walks \<open>[0, 1, 2]\<close> and \<open>[1, 0, 2]\<close> have the same key
  \<^verbatim>\<open>A>A>A>B\<close>, the least one; which of them is returned depends on where the scan starts.
\<close>

theorem canonical_form_counterexample:
  "FromGraphviz ''A -> A>A\<newline>A>A -> B\<newline>B -> A'' = Inr gt_graph \<and>
   distinct [0, 1, 2 :: nat] \<and>
   CanonicalizeTour gt_graph [0, 1, 2] = [0, 1, 2, 0] \<and>
   CanonicalizeTour gt_graph (rotate 1 [0, 1, 2]) = [1, 0, 2, 1]"
  unfolding FromGraphviz_gt by code_simp

section \<open>The set of best paths\<close>

lemma choose_next_fresh:
  assumes "choose_next ops g params ph visited current r = Some (v, r')"
  shows "v < VertexCount g \<and> \<not> visited ! v"
  using choose_next_candidate [OF assms] by (simp add: collect_candidates_set)

lemma construct_steps_inv:
  assumes "construct_steps ops g params ph k visited current p r = (Some p', r')"
    and "length visited = VertexCount g" and "distinct p" and "set p \<subseteq> {..<VertexCount g}"
    and "\<forall>v < VertexCount g. visited ! v \<longleftrightarrow> v \<in> set p"
  shows "length p' = length p + k \<and> distinct p' \<and> set p' \<subseteq> {..<VertexCount g} \<and>
         (p \<noteq> [] \<longrightarrow> hd p' = hd p)"
  using assms
proof (induction k arbitrary: visited current p r)
  case 0
  then show ?case by simp
next
  case (Suc k)
  from Suc.prems(1) obtain v r1 where
    ch: "choose_next ops g params ph visited current r = Some (v, r1)"
    and rec: "construct_steps ops g params ph k (visited[v := True]) v (p @ [v]) r1 = (Some p', r')"
    by (auto split: option.splits)
  from choose_next_fresh [OF ch] have v: "v < VertexCount g" "\<not> visited ! v" by simp_all
  with Suc.prems(5) have nv: "v \<notin> set p" by blast
  have "length p' = length (p @ [v]) + k \<and> distinct p' \<and> set p' \<subseteq> {..<VertexCount g} \<and>
        (p @ [v] \<noteq> [] \<longrightarrow> hd p' = hd (p @ [v]))"
  proof (rule Suc.IH [OF rec])
    show "length (visited[v := True]) = VertexCount g" using Suc.prems(2) by simp
    show "distinct (p @ [v])" using Suc.prems(3) nv by simp
    show "set (p @ [v]) \<subseteq> {..<VertexCount g}" using Suc.prems(4) v by simp
    show "\<forall>u < VertexCount g. (visited[v := True]) ! u \<longleftrightarrow> u \<in> set (p @ [v])"
      using Suc.prems(2,5) v by (auto simp: nth_list_update)
  qed
  then show ?case by (cases p) auto
qed

lemma hamiltonian_closed:
  assumes "length p = VertexCount g" "distinct p" "set p \<subseteq> {..<VertexCount g}" "p \<noteq> []"
  shows "hamiltonian_tour g (p @ [hd p])"
proof -
  have "card (set p) = VertexCount g" using assms(1,2) by (simp add: distinct_card)
  then have "set p = {..<VertexCount g}"
    using assms(3) by (intro card_subset_eq) simp_all
  then show ?thesis
    using assms by (simp add: hamiltonian_tour_def)
qed

lemma ConstructSolution_valid:
  assumes "rng_in_range ops"
  shows "path (fst (ConstructSolution ops g params ph r)) = [] \<or>
         valid_ant_path g (fst (ConstructSolution ops g params ph r))"
proof (cases "VertexCount g = 0")
  case True
  then show ?thesis by (simp add: ConstructSolution_def initial_AntPath_def)
next
  case False
  let ?n = "VertexCount g"
  obtain c r1 where u: "uniform_int ops (?n - 1) r = (c, r1)"
    by (cases "uniform_int ops (?n - 1) r")
  have "fst (uniform_int ops (?n - 1) r) \<le> ?n - 1"
    using assms unfolding rng_in_range_def by blast
  with u False have c: "c < ?n" by simp
  let ?vis = "(replicate ?n False)[c := True]"
  obtain res r2 where cs: "construct_steps ops g params ph (?n - 1) ?vis c [c] r1 = (res, r2)"
    by (cases "construct_steps ops g params ph (?n - 1) ?vis c [c] r1")
  show ?thesis
  proof (cases res)
    case None
    then show ?thesis using False u cs by (simp add: ConstructSolution_def Let_def)
  next
    case (Some p)
    have "length p = length [c] + (?n - 1) \<and> distinct p \<and> set p \<subseteq> {..<?n} \<and>
          ([c] \<noteq> [] \<longrightarrow> hd p = hd [c])"
    proof (rule construct_steps_inv)
      show "construct_steps ops g params ph (?n - 1) ?vis c [c] r1 = (Some p, r2)"
        using cs Some by simp
      show "\<forall>v < ?n. ?vis ! v \<longleftrightarrow> v \<in> set [c]" using c by (auto simp: nth_list_update)
    qed (use c in simp_all)
    then have "length p = ?n" "distinct p" "set p \<subseteq> {..<?n}" "p \<noteq> []"
      using False by auto
    then have h: "hamiltonian_tour g (p @ [hd p])" by (rule hamiltonian_closed)
    show ?thesis
    proof (cases "isfinite (ComputePathLength g (p @ [hd p]))")
      case True
      then show ?thesis
        using False u cs Some h
        by (simp add: ConstructSolution_def Let_def valid_ant_path_def)
    next
      case False
      then show ?thesis
        using \<open>?n \<noteq> 0\<close> u cs Some by (simp add: ConstructSolution_def Let_def)
    qed
  qed
qed


lemma CanonicalizeTour_hamiltonian:
  assumes "hamiltonian_tour g p"
  shows "hamiltonian_tour g (CanonicalizeTour g p)"
proof (cases "2 \<le> length p")
  case False
  then show ?thesis using assms by (simp add: CanonicalizeTour_def)
next
  case True
  let ?w = "canon_walk g (cycle_of p)"
  from assms have len: "length p = VertexCount g + 1" and hl: "hd p = last p"
    and d: "distinct (butlast p)" and s: "set (butlast p) = {..<VertexCount g}"
    by (simp_all add: hamiltonian_tour_def)
  have c: "cycle_of p = butlast p" using hl by (simp add: cycle_of_def)
  have "?w \<in> walks (butlast p)" using canon_walk_min [of g "cycle_of p"] c by simp
  from walks_props [OF this] have w: "length ?w = VertexCount g" "distinct ?w"
    "set ?w = {..<VertexCount g}"
    using len d s by simp_all
  have "0 < length ?w" unfolding w(1) using True len by simp
  then have ne: "?w \<noteq> []" by simp
  have "hamiltonian_tour g (?w @ [hd ?w])"
    unfolding hamiltonian_tour_def using w ne by simp
  then show ?thesis by (simp only: CanonicalizeTour_long [OF True])
qed

lemma AreEqual_refl: "isfinite x \<Longrightarrow> AreEqual x x"
  by (cases x) (simp_all add: AreEqual_def dsub_def kEps_def)

lemma stored_tour_ok_new:
  assumes "valid_ant_path g ap" "AreEqual (length_ap ap) best"
  shows "stored_tour_ok g best (CanonicalizeTour g (path ap))"
  unfolding stored_tour_ok_def
proof (intro conjI exI [of _ "path ap"])
  show "CanonicalizeTour g (CanonicalizeTour g (path ap)) = CanonicalizeTour g (path ap)"
    by (rule CanonicalizeTour_idem)
  show "hamiltonian_tour g (CanonicalizeTour g (path ap))"
    using assms(1) by (simp add: valid_ant_path_def CanonicalizeTour_hamiltonian)
  show "hamiltonian_tour g (path ap)" using assms(1) by (simp add: valid_ant_path_def)
  show "AreEqual (ComputePathLength g (path ap)) best"
    using assms by (simp add: valid_ant_path_def)
qed simp

lemma UpdateBest_cases:
  obtains (skip) "UpdateBest g ap res = res"
  | (replace) "path ap \<noteq> []" "isfinite (length_ap ap)"
      "UpdateBest g ap res =
         \<lparr>best_length = length_ap ap, best_paths = [CanonicalizeTour g (path ap)],
          best_paths_labels = [serialize g (CanonicalizeTour g (path ap))]\<rparr>"
  | (append) "path ap \<noteq> []" "isfinite (length_ap ap)"
      "AreEqual (length_ap ap) (best_length res)"
      "serialize g (CanonicalizeTour g (path ap)) \<notin> set (best_paths_labels res)"
      "UpdateBest g ap res =
         res\<lparr>best_paths := best_paths res @ [CanonicalizeTour g (path ap)],
             best_paths_labels := best_paths_labels res @
               [serialize g (CanonicalizeTour g (path ap))]\<rparr>"
proof (cases "path ap = [] \<or> \<not> isfinite (length_ap ap)")
  case True
  then have "UpdateBest g ap res = res" by (simp add: UpdateBest_def)
  then show ?thesis by (rule skip)
next
  case f: False
  show ?thesis
  proof (cases "best_paths res = [] \<or>
                dless (dadd (length_ap ap) (Fin (1 / 10 ^ 9))) (best_length res)")
    case True
    with f have "UpdateBest g ap res =
         \<lparr>best_length = length_ap ap, best_paths = [CanonicalizeTour g (path ap)],
          best_paths_labels = [serialize g (CanonicalizeTour g (path ap))]\<rparr>"
      by (simp add: UpdateBest_def Let_def)
    with f show ?thesis by (intro replace) simp_all
  next
    case nb: False
    show ?thesis
    proof (cases "AreEqual (length_ap ap) (best_length res) \<and>
                  serialize g (CanonicalizeTour g (path ap)) \<notin> set (best_paths_labels res)")
      case True
      with f nb have "UpdateBest g ap res =
         res\<lparr>best_paths := best_paths res @ [CanonicalizeTour g (path ap)],
             best_paths_labels := best_paths_labels res @
               [serialize g (CanonicalizeTour g (path ap))]\<rparr>"
        by (simp add: UpdateBest_def Let_def)
      with f True show ?thesis by (intro append) simp_all
    next
      case False
      with f nb have "UpdateBest g ap res = res"
        by (auto simp: UpdateBest_def Let_def)
      then show ?thesis by (rule skip)
    qed
  qed
qed

lemma UpdateBest_inv:
  assumes "result_inv g res" and "path ap = [] \<or> valid_ant_path g ap"
  shows "result_inv g (UpdateBest g ap res)"
proof (cases g ap res rule: UpdateBest_cases)
  case skip
  then show ?thesis using assms(1) by simp
next
  case replace
  with assms(2) have v: "valid_ant_path g ap" by simp
  have "stored_tour_ok g (length_ap ap) (CanonicalizeTour g (path ap))"
    by (rule stored_tour_ok_new [OF v AreEqual_refl [OF replace(2)]])
  then show ?thesis
    unfolding replace(3) result_inv_def by simp
next
  case append
  with assms(2) have v: "valid_ant_path g ap" by simp
  have n: "stored_tour_ok g (best_length res) (CanonicalizeTour g (path ap))"
    by (rule stored_tour_ok_new [OF v append(3)])
  from assms(1) have 1: "best_paths_labels res = map (serialize g) (best_paths res)"
    and 2: "distinct (best_paths_labels res)"
    and 3: "list_all (stored_tour_ok g (best_length res)) (best_paths res)"
    unfolding result_inv_def by blast+
  show ?thesis
    unfolding append(5) result_inv_def using n append(4) 1 2 3 by simp
qed

lemma result_inv_initial: "result_inv g initial_TourResult"
  by (simp add: result_inv_def initial_TourResult_def)

lemma seq_ants_inv:
  assumes "rng_in_range ops"
  shows "result_inv g res \<Longrightarrow>
         result_inv g (fst (snd (seq_ants ops g params ph k (delta, res, r))))"
proof (induction k arbitrary: delta res r)
  case 0
  then show ?case by simp
next
  case (Suc k)
  obtain ap r' where c: "ConstructSolution ops g params ph r = (ap, r')"
    by (cases "ConstructSolution ops g params ph r")
  with ConstructSolution_valid [OF assms, of g params ph r]
  have v: "path ap = [] \<or> valid_ant_path g ap" by simp
  show ?case
  proof (cases "path ap = []")
    case True
    then show ?thesis using Suc.IH [OF Suc.prems] c by simp
  next
    case False
    then show ?thesis
      using Suc.IH [OF UpdateBest_inv [OF Suc.prems v]] c by simp
  qed
qed

lemma seq_state_inv:
  assumes "rng_in_range ops"
  shows "result_inv g (fst (seq_state ops g params k))"
proof (induction k)
  case 0
  then show ?case by (simp add: result_inv_initial)
next
  case (Suc k)
  obtain res ph r where s: "seq_state ops g params k = (res, ph, r)"
    by (cases "seq_state ops g params k")
  with Suc have "result_inv g res" by simp
  obtain d res' r' where a: "seq_ants ops g params ph (ants params) (zero_matrix g, res, r) = (d, res', r')"
    by (cases "seq_ants ops g params ph (ants params) (zero_matrix g, res, r)")
  from seq_ants_inv [OF assms \<open>result_inv g res\<close>, of params ph "ants params" "zero_matrix g" r]
  have "result_inv g res'" by (simp add: a)
  then show ?case
    by (simp add: s seq_iteration_def a)
qed

lemma worker_ants_valid:
  assumes "rng_in_range ops"
  shows "list_all (valid_ant_path g) tbp \<Longrightarrow>
         list_all (valid_ant_path g)
           (fst (snd (snd (worker_ants ops g params ph k (delta, tbl, tbp, r)))))"
proof (induction k arbitrary: delta tbl tbp r)
  case 0
  then show ?case by simp
next
  case (Suc k)
  obtain ap r' where c: "ConstructSolution ops g params ph r = (ap, r')"
    by (cases "ConstructSolution ops g params ph r")
  with ConstructSolution_valid [OF assms, of g params ph r]
  have v: "path ap = [] \<or> valid_ant_path g ap" by simp
  show ?case
  proof (cases "path ap = []")
    case True
    then show ?thesis using Suc.IH [OF Suc.prems] c by simp
  next
    case False
    with v have va: "valid_ant_path g ap" by simp
    have 1: "list_all (valid_ant_path g) [ap]" using va by simp
    have 2: "list_all (valid_ant_path g) (tbp @ [ap])" using va Suc.prems by simp
    show ?thesis
      using Suc.IH [OF 1] Suc.IH [OF 2] Suc.IH [OF Suc.prems] c False
      by (simp add: Let_def)
  qed
qed

lemma worker_valid:
  assumes "rng_in_range ops"
  shows "list_all (valid_ant_path g) (snd (worker ops g params tc ph it t))"
proof -
  let ?a = "ants params div tc + (if t < ants params mod tc then 1 else 0)"
  let ?st = "(zero_matrix g, kInfinity, [] :: AntPath list, rng_seed ops (worker_seed params t it))"
  obtain d tbl tbp r where wa: "worker_ants ops g params ph ?a ?st = (d, tbl, tbp, r)"
    by (cases "worker_ants ops g params ph ?a ?st") auto
  from worker_ants_valid [OF assms, of g "[]" params ph ?a "zero_matrix g" kInfinity
      "rng_seed ops (worker_seed params t it)"]
  have "list_all (valid_ant_path g) tbp"
    unfolding wa by simp
  then show ?thesis
    using wa by (cases "?a = 0") (simp_all add: worker_def Let_def)
qed

lemma merge_worker_inv:
  "result_inv g res \<Longrightarrow> list_all (valid_ant_path g) tbp \<Longrightarrow>
   result_inv g (merge_worker g res tbp)"
  unfolding merge_worker_def
  by (induction tbp arbitrary: res) (simp_all add: UpdateBest_inv)

lemma merge_order_inv:
  assumes "\<forall>t \<in> set order. list_all (valid_ant_path g) (snd (locals ! t))"
  shows "result_inv g res \<Longrightarrow>
         result_inv g (foldl (\<lambda>r t. merge_worker g r (snd (locals ! t))) res order)"
  using assms by (induction order arbitrary: res) (simp_all add: merge_worker_inv)

lemma par_state_inv:
  assumes "rng_in_range ops" "schedule_ok tc sched k"
  shows "result_inv g (fst (par_state ops g params tc sched k))"
  using assms(2)
proof (induction k)
  case 0
  then show ?case by (simp add: result_inv_initial)
next
  case (Suc k)
  from Suc.prems have ok: "schedule_ok tc sched k" and ord: "set (sched k) = {0..<tc}"
    by (simp_all add: schedule_ok_def)
  obtain res ph where s: "par_state ops g params tc sched k = (res, ph)"
    by (cases "par_state ops g params tc sched k")
  with Suc.IH [OF ok] have r: "result_inv g res" by simp
  let ?locals = "map (worker ops g params tc ph k) [0..<tc]"
  have "\<forall>t \<in> set (sched k). list_all (valid_ant_path g) (snd (?locals ! t))"
    using ord worker_valid [OF assms(1)] by simp
  from merge_order_inv [OF this r] show ?case
    by (simp add: s par_iteration_def Let_def)
qed

text \<open>
  Claim C8, as the code has it. The invariant holds of the initial result and is kept by
  every call of \<^const>\<open>UpdateBest\<close> on a constructed path, hence after every iteration of
  both runners: the two vectors have the same length, the labels are the serialized paths
  and are pairwise different, and every stored path is canonical, closed, has \<open>N + 1\<close>
  elements, visits each vertex once and is the canonical form of a constructed tour whose
  length is within \<^verbatim>\<open>1e-9\<close> of \<open>best_length\<close>. It is that tour, not the stored path, whose
  length is near \<open>best_length\<close>: the stored path can be its reversal.
\<close>

theorem best_set_invariant:
  assumes "rng_in_range ops" and "schedule_ok thread_count sched k"
  shows "result_inv g initial_TourResult \<and>
         (result_inv g res \<longrightarrow>
            result_inv g (UpdateBest g (fst (ConstructSolution ops g params pheromone r)) res)) \<and>
         result_inv g (fst (seq_state ops g params k)) \<and>
         result_inv g (fst (par_state ops g params thread_count sched k)) \<and>
         result_inv g (RunSequential ops g params) \<and>
         (schedule_ok thread_count sched (iterations params) \<longrightarrow>
            result_inv g (RunParallel ops g params sched thread_count))"
  using result_inv_initial [of g] UpdateBest_inv [OF _ ConstructSolution_valid [OF assms(1)]]
    seq_state_inv [OF assms(1)] par_state_inv [OF assms] par_state_inv [OF assms(1)]
  by (simp add: RunSequential_def RunParallel_def)


theorem best_set_invariant_witness:
  "result_inv k4_graph
     (UpdateBest k4_graph
        (fst (ConstructSolution counter_rng k4_graph two_ants (InitialPheromone k4_graph) 0))
        initial_TourResult) \<and>
   result_inv k4_graph (RunSequential counter_rng k4_graph two_ants) \<and>
   result_inv k4_graph (RunParallel counter_rng k4_graph two_ants (\<lambda>i. [0, 1]) 2)"
proof -
  have s: "schedule_ok 2 (\<lambda>i. [0, 1]) 1" by (auto simp: schedule_ok_def)
  have i: "iterations two_ants = 1" by (simp add: two_ants_def default_params_def)
  note t = best_set_invariant [OF rng_in_range_counter s, of k4_graph initial_TourResult two_ants
      "InitialPheromone k4_graph" 0]
  from t show ?thesis
    unfolding i using s by blast
qed

lemma FromGraphviz_rcycle:
  "FromGraphviz ''A -> D\<newline>D -> C\<newline>C -> B\<newline>B -> A'' = Inr rcycle_graph"
  by code_simp

text \<open>
  On the directed cycle \<open>A \<rightarrow> D \<rightarrow> C \<rightarrow> B \<rightarrow> A\<close> the only tour has length 4. Its canonical form
  runs the other way, over edges that the graph does not have: the stored path has
  infinite length.
\<close>

theorem stored_tour_length_counterexample:
  "FromGraphviz ''A -> D\<newline>D -> C\<newline>C -> B\<newline>B -> A'' = Inr rcycle_graph \<and>
   RunSequential counter_rng rcycle_graph single_ant =
     \<lparr>best_length = Fin 4, best_paths = [[0, 1, 2, 3, 0]],
      best_paths_labels = [''A->B->C->D->A'']\<rparr> \<and>
   ComputePathLength rcycle_graph [0, 1, 2, 3, 0] = PInf \<and>
   \<not> AreEqual (ComputePathLength rcycle_graph [0, 1, 2, 3, 0]) (Fin 4)"
  unfolding FromGraphviz_rcycle by code_simp


end
